theory Spec2Isabelle
  imports Main "HOL-Library.Word"
begin

section \<open>The connection pool of go-redis (package pool)\<close>

text \<open>
  The pool is embedded as explicit state passing over a record \<open>pool\<close> that holds the
  fields of \<open>ConnPool\<close> together with the part of the world the pool acts on: the
  \<open>Conn\<close> objects it points to (a store from pointers to connections), a clock, and the
  goroutines it has started and that have not finished. Pointers are natural numbers and
  \<open>0\<close> is \<open>nil\<close>. A call of a public method is one step; a goroutine started with
  \<open>go\<close> is recorded in \<open>tasks\<close> and runs at any later moment, the min-idle filler in
  three steps (up to the call of the Dialer, the return of the Dialer, the section under
  \<open>connsMu\<close>) between which any other step may fall. The loop of \<open>Get\<close> is given a
  second time step by step (\<open>Get_step\<close>), with the steps of others between its own.
\<close>

subsection \<open>Data\<close>

type_synonym ptr = nat

type_synonym uint32 = "32 word"

text \<open>What \<open>ctx.Err()\<close> returns once the context is done.\<close>

datatype ctx_err = Canceled | DeadlineExceeded

datatype err =
    ErrClosed
  | ErrPoolTimeout
  | BadConnError
  | ContextError ctx_err
  | DialError nat
  | SocketError nat

text \<open>
  The observed attributes of \<open>Conn\<close>. The struct itself is declared in a file that is not
  among the sources; the pool reads \<open>pooled\<close>, \<open>createdAt\<close>, \<open>UsedAt()\<close>,
  \<open>rd.Buffered()\<close> and \<open>netConn\<close>. The socket is represented by what the pool can
  observe of it: \<open>sock_broken\<close> is whether \<open>connCheck(netConn)\<close> returns an error, and
  \<open>sock_closeErr\<close> is what closing it returns.
\<close>

record conn =
  pooled :: bool
  createdAt :: int
  usedAt :: int
  rd_Buffered :: int
  sock_broken :: bool
  sock_closeErr :: "err option"

text \<open>
  \<open>Options\<close>. The user's \<open>Dialer\<close> is a script: its result at the \<open>n\<close>-th call
  (\<open>None\<close> is a socket, \<open>Some e\<close> the error). Durations are integers (nanoseconds).
\<close>

record options =
  Dialer :: "nat \<Rightarrow> err option"
  PoolFIFO :: bool
  PoolSize :: int
  PoolTimeout :: int
  MinIdleConns :: int
  MaxIdleConns :: int
  ConnMaxIdleTime :: int
  ConnMaxLifetime :: int

record Stats =
  Hits :: uint32
  Misses :: uint32
  Timeouts :: uint32
  TotalConns :: uint32
  IdleConns :: uint32
  StaleConns :: uint32

text \<open>
  The goroutines the pool starts: the min-idle filler, an asynchronous close, the prober.
  A filler is \<open>AddIdleTask\<close> until it has called the Dialer, \<open>AddIdleDialing r\<close> while the
  Dialer runs (\<open>r\<close> is what it is going to return), and \<open>AddIdleReturned e\<close> once
  \<open>dialConn\<close> has returned no connection and the error \<open>e\<close> to it.
\<close>

datatype task =
    AddIdleTask
  | AddIdleDialing "err option"
  | AddIdleReturned "err option"
  | CloseTask ptr
  | ProbeTask

text \<open>
  \<open>ConnPool\<close>. \<open>conns\<close> and \<open>idleConns\<close> are \<open>*list.List\<close>: \<open>None\<close> is the nil pointer
  that \<open>Close\<close> stores there, and every method of \<open>container/list\<close> panics on it.
  \<open>queue\<close> is the number of elements in the channel, whose capacity is \<open>PoolSize\<close>.
  \<open>closed_flag\<close> is the field \<open>_closed\<close>. After the fields of the struct come the store
  of connections (\<open>heap\<close>, with \<open>nextConn\<close> the next pointer to hand out), the clock and
  the goroutines started and not finished. The last four fields only count events (calls
  of the Dialer, of \<open>popIdle\<close>, of \<open>Conn.Close\<close> per connection, and closes of a probe
  socket); no operation reads them.
\<close>

record pool =
  cfg :: options
  dialErrorsNum :: uint32
  lastDialError :: "err option"
  queue :: nat
  conns :: "ptr list option"
  idleConns :: "ptr list option"
  poolSize :: int
  idleConnsLen :: int
  stats :: Stats
  closed_flag :: uint32
  heap :: "ptr \<Rightarrow> conn option"
  nextConn :: ptr
  clock :: int
  tasks :: "task list"
  dialCalls :: nat
  popCalls :: nat
  closeCalls :: "ptr \<Rightarrow> nat"
  probeCloses :: nat

text \<open>
  What a call does: it returns a value and leaves a pool, or it panics (a nil pointer
  dereference), or it blocks on the channel (a send on a full channel, a receive on an
  empty one) with nobody to wake it.
\<close>

datatype 'a outcome = Returns 'a pool | Panics | Blocks

text \<open>The context of a call: \<open>None\<close> while it is live, \<open>Some e\<close> once \<open>Done\<close> is closed.\<close>

type_synonym ctx = "ctx_err option"

text \<open>Which case of the blocking \<open>select\<close> of \<open>waitTurn\<close> is taken.\<close>

datatype wait_event = CtxFires ctx_err | TicketFreed | TimerFires

subsection \<open>Tickets\<close>

definition closed :: "pool \<Rightarrow> bool" where
  "closed p = (closed_flag p = 1)"

definition getTurn :: "pool \<Rightarrow> unit outcome" where
  "getTurn p =
     (if int (queue p) < PoolSize (cfg p) then Returns () (p\<lparr>queue := queue p + 1\<rparr>)
      else Blocks)"

definition freeTurn :: "pool \<Rightarrow> unit outcome" where
  "freeTurn p =
     (if queue p = 0 then Blocks else Returns () (p\<lparr>queue := queue p - 1\<rparr>))"

text \<open>
  \<open>waitTurn\<close>: three \<open>select\<close>s. In the last one the caller is blocked on a full channel;
  \<open>TicketFreed\<close> is a concurrent \<open>freeTurn\<close> that takes one element out, after which this
  send puts one in: the channel is as full as before.
\<close>

definition waitTurn :: "ctx \<Rightarrow> wait_event \<Rightarrow> pool \<Rightarrow> err option outcome" where
  "waitTurn ctx ev p =
     (case ctx of
        Some e \<Rightarrow> Returns (Some (ContextError e)) p
      | None \<Rightarrow>
          if int (queue p) < PoolSize (cfg p) then Returns None (p\<lparr>queue := queue p + 1\<rparr>)
          else (case ev of
                  CtxFires e \<Rightarrow> Returns (Some (ContextError e)) p
                | TicketFreed \<Rightarrow> Returns None p
                | TimerFires \<Rightarrow>
                    Returns (Some ErrPoolTimeout)
                      (p\<lparr>stats := (stats p)\<lparr>Timeouts := Timeouts (stats p) + 1\<rparr>\<rparr>)))"

subsection \<open>The min-idle filler\<close>

function checkMinIdleConns_loop :: "pool \<Rightarrow> pool" where
  "checkMinIdleConns_loop p =
     (if poolSize p < PoolSize (cfg p) \<and> idleConnsLen p < MinIdleConns (cfg p)
      then checkMinIdleConns_loop
             (p\<lparr>poolSize := poolSize p + 1, idleConnsLen := idleConnsLen p + 1,
                tasks := tasks p @ [AddIdleTask]\<rparr>)
      else p)"
  by pat_completeness auto
termination
  by (relation "measure (\<lambda>p. nat (PoolSize (cfg p) - poolSize p))") auto

declare checkMinIdleConns_loop.simps [simp del]

definition checkMinIdleConns :: "pool \<Rightarrow> pool" where
  "checkMinIdleConns p =
     (if MinIdleConns (cfg p) = 0 then p else checkMinIdleConns_loop p)"

subsection \<open>Closing a connection\<close>

text \<open>
  Modelled from the spec: \<open>Conn.Close\<close> (declared outside the sources) closes the
  underlying socket and returns its error. A nil connection panics.
\<close>

definition Conn_Close :: "ptr \<Rightarrow> pool \<Rightarrow> err option outcome" where
  "Conn_Close cn p =
     (case heap p cn of
        None \<Rightarrow> Panics
      | Some c \<Rightarrow>
          Returns (sock_closeErr c) (p\<lparr>closeCalls := (closeCalls p)(cn := closeCalls p cn + 1)\<rparr>))"

definition closeConn :: "ptr \<Rightarrow> pool \<Rightarrow> err option outcome" where
  "closeConn cn p = Conn_Close cn p"

subsection \<open>Dialing\<close>

definition setLastDialError :: "err \<Rightarrow> pool \<Rightarrow> pool" where
  "setLastDialError e p = p\<lparr>lastDialError := Some e\<rparr>"

definition getLastDialError :: "pool \<Rightarrow> err option" where
  "getLastDialError p = lastDialError p"

text \<open>
  Modelled from the spec: \<open>NewConn(netConn)\<close> (declared outside the sources) makes a
  connection with \<open>created_at = now\<close> and \<open>used_at = now\<close> on the fresh socket.
\<close>

definition NewConn_alloc :: "bool \<Rightarrow> pool \<Rightarrow> ptr \<times> pool" where
  "NewConn_alloc pl p =
     (nextConn p,
      p\<lparr>heap := (heap p)(nextConn p \<mapsto>
            \<lparr>pooled = pl, createdAt = clock p, usedAt = clock p, rd_Buffered = 0,
             sock_broken = False, sock_closeErr = None\<rparr>),
        nextConn := nextConn p + 1\<rparr>)"

definition dialConn :: "bool \<Rightarrow> pool \<Rightarrow> (ptr \<times> err option) outcome" where
  "dialConn pl p =
     (if closed p then Returns (0, Some ErrClosed) p
      else if word_of_int (PoolSize (cfg p)) \<le> dialErrorsNum p
      then Returns (0, getLastDialError p) p
      else (case Dialer (cfg p) (dialCalls p) of
              Some e \<Rightarrow>
                (let p1 = setLastDialError e (p\<lparr>dialCalls := dialCalls p + 1\<rparr>);
                     p2 = p1\<lparr>dialErrorsNum := dialErrorsNum p1 + 1\<rparr>
                 in Returns (0, Some e)
                      (if dialErrorsNum p2 = word_of_int (PoolSize (cfg p2))
                       then p2\<lparr>tasks := tasks p2 @ [ProbeTask]\<rparr> else p2))
            | None \<Rightarrow>
                (case NewConn_alloc pl (p\<lparr>dialCalls := dialCalls p + 1\<rparr>) of
                   (cn, p1) \<Rightarrow> Returns (cn, None) p1)))"

text \<open>
  One round of the loop of \<open>tryDial\<close>; the result says whether the goroutine goes on
  (after its sleep of one second) or has returned.
\<close>

definition tryDial_round :: "pool \<Rightarrow> bool \<times> pool" where
  "tryDial_round p =
     (if closed p then (False, p)
      else (case Dialer (cfg p) (dialCalls p) of
              Some e \<Rightarrow> (True, setLastDialError e (p\<lparr>dialCalls := dialCalls p + 1\<rparr>))
            | None \<Rightarrow>
                (False, p\<lparr>dialCalls := dialCalls p + 1, dialErrorsNum := 0,
                          probeCloses := probeCloses p + 1\<rparr>)))"

text \<open>
  \<open>dialConn\<close> in two parts: up to the call of the Dialer, and from its return. The first
  part gives \<open>Inl\<close> of what \<open>dialConn\<close> returns when it does not dial, or \<open>Inr\<close> of what
  the Dialer, now called, is going to return.
\<close>

definition dialConn_begin :: "pool \<Rightarrow> ((ptr \<times> err option) + err option) \<times> pool" where
  "dialConn_begin p =
     (if closed p then (Inl (0, Some ErrClosed), p)
      else if word_of_int (PoolSize (cfg p)) \<le> dialErrorsNum p
      then (Inl (0, getLastDialError p), p)
      else (Inr (Dialer (cfg p) (dialCalls p)), p\<lparr>dialCalls := dialCalls p + 1\<rparr>))"

definition dialConn_end :: "bool \<Rightarrow> err option \<Rightarrow> pool \<Rightarrow> (ptr \<times> err option) \<times> pool" where
  "dialConn_end pl r p =
     (case r of
        Some e \<Rightarrow>
          (let p1 = setLastDialError e p;
               p2 = p1\<lparr>dialErrorsNum := dialErrorsNum p1 + 1\<rparr>
           in ((0, Some e),
               (if dialErrorsNum p2 = word_of_int (PoolSize (cfg p2))
                then p2\<lparr>tasks := tasks p2 @ [ProbeTask]\<rparr> else p2)))
      | None \<Rightarrow> (case NewConn_alloc pl p of (cn, p1) \<Rightarrow> ((cn, None), p1)))"

text \<open>
  The goroutine that \<open>checkMinIdleConns\<close> starts runs \<open>addIdleConn\<close> and, on an error other
  than \<open>ErrClosed\<close>, gives back the slot it was started for. It holds no lock while it
  dials, so it is three steps. \<open>addIdleConn_begin\<close> is \<open>dialConn\<close> up to the call of the
  Dialer. \<open>addIdleConn_dialed\<close> is the return of the Dialer: a failure is recorded and
  counted, a socket is wrapped in a connection and attached. \<open>addIdleConn_returned\<close> is
  what follows a \<open>dialConn\<close> that returned no connection: the section under \<open>connsMu\<close>
  that gives the slot back or, when there is no error either, the one of \<open>addIdleConn\<close>
  on the nil connection. \<open>addIdleConn_attach\<close> is that section of \<open>addIdleConn\<close>.
\<close>

definition addIdleConn_attach :: "ptr \<Rightarrow> pool \<Rightarrow> unit outcome" where
  "addIdleConn_attach cn p =
     (if closed p
      then (case Conn_Close cn p of
              Returns _ p1 \<Rightarrow> Returns () p1
            | Panics \<Rightarrow> Panics
            | Blocks \<Rightarrow> Blocks)
      else (case conns p of
              None \<Rightarrow> Panics
            | Some cs \<Rightarrow>
                (case idleConns p of
                   None \<Rightarrow> Panics
                 | Some ics \<Rightarrow>
                     Returns () (p\<lparr>conns := Some (cs @ [cn]),
                                   idleConns := Some (ics @ [cn])\<rparr>))))"

definition addIdleConn_begin :: "pool \<Rightarrow> unit outcome" where
  "addIdleConn_begin p =
     (case dialConn_begin p of
        (Inl (cn, e), p1) \<Rightarrow> Returns () (p1\<lparr>tasks := tasks p1 @ [AddIdleReturned e]\<rparr>)
      | (Inr r, p1) \<Rightarrow> Returns () (p1\<lparr>tasks := tasks p1 @ [AddIdleDialing r]\<rparr>))"

definition addIdleConn_dialed :: "err option \<Rightarrow> pool \<Rightarrow> unit outcome" where
  "addIdleConn_dialed r p =
     (case dialConn_end True r p of
        ((cn, Some e), p1) \<Rightarrow> Returns () (p1\<lparr>tasks := tasks p1 @ [AddIdleReturned (Some e)]\<rparr>)
      | ((cn, None), p1) \<Rightarrow> addIdleConn_attach cn p1)"

definition addIdleConn_returned :: "err option \<Rightarrow> pool \<Rightarrow> unit outcome" where
  "addIdleConn_returned e p =
     (case e of
        None \<Rightarrow> addIdleConn_attach 0 p
      | Some e' \<Rightarrow>
          if e' \<noteq> ErrClosed
          then Returns () (p\<lparr>poolSize := poolSize p - 1, idleConnsLen := idleConnsLen p - 1\<rparr>)
          else Returns () p)"

definition newConn :: "bool \<Rightarrow> pool \<Rightarrow> (ptr \<times> err option) outcome" where
  "newConn pl p =
     (case dialConn pl p of
        Panics \<Rightarrow> Panics
      | Blocks \<Rightarrow> Blocks
      | Returns (cn, Some e) p1 \<Rightarrow> Returns (0, Some e) p1
      | Returns (cn, None) p1 \<Rightarrow>
          if closed p1
          then (case Conn_Close cn p1 of
                  Returns _ p2 \<Rightarrow> Returns (0, Some ErrClosed) p2
                | Panics \<Rightarrow> Panics
                | Blocks \<Rightarrow> Blocks)
          else (case conns p1 of
                  None \<Rightarrow> Panics
                | Some cs \<Rightarrow>
                    (let p2 = p1\<lparr>conns := Some (cs @ [cn])\<rparr> in
                     if pl then
                       (if PoolSize (cfg p2) \<le> poolSize p2
                        then (case heap p2 cn of
                                None \<Rightarrow> Panics
                              | Some c \<Rightarrow>
                                  Returns (cn, None)
                                    (p2\<lparr>heap := (heap p2)(cn \<mapsto> c\<lparr>pooled := False\<rparr>)\<rparr>))
                        else Returns (cn, None) (p2\<lparr>poolSize := poolSize p2 + 1\<rparr>))
                     else Returns (cn, None) p2)))"

definition NewConn :: "pool \<Rightarrow> (ptr \<times> err option) outcome" where
  "NewConn p = newConn False p"

subsection \<open>Health and staleness\<close>

text \<open>
  Modelled from the spec: \<open>connCheck\<close> (declared outside the sources) is the non-blocking
  probe of the socket; its result is the \<open>sock_broken\<close> attribute. The \<open>fmt.Printf\<close>
  calls have no effect on the pool and are left out.
\<close>

definition isHealthyConn :: "ptr \<Rightarrow> pool \<Rightarrow> bool outcome" where
  "isHealthyConn cn p =
     (case heap p cn of
        None \<Rightarrow> Panics
      | Some c \<Rightarrow>
          (let now = clock p in
           if 0 < ConnMaxLifetime (cfg p) \<and> ConnMaxLifetime (cfg p) \<le> now - createdAt c
           then Returns False p
           else if 0 < ConnMaxIdleTime (cfg p) \<and> ConnMaxIdleTime (cfg p) \<le> now - usedAt c
           then Returns False p
           else if sock_broken c then Returns False p
           else Returns True (p\<lparr>heap := (heap p)(cn \<mapsto> c\<lparr>usedAt := now\<rparr>)\<rparr>)))"

definition isStaleConn :: "ptr \<Rightarrow> pool \<Rightarrow> bool outcome" where
  "isStaleConn cn p =
     (case heap p cn of
        None \<Rightarrow> Panics
      | Some c \<Rightarrow>
          (let now = clock p in
           if 0 < ConnMaxLifetime (cfg p) \<and> ConnMaxLifetime (cfg p) \<le> now - createdAt c
           then Returns True p
           else if 0 < ConnMaxIdleTime (cfg p) \<and> ConnMaxIdleTime (cfg p) \<le> now - usedAt c
           then Returns True p
           else if sock_broken c then Returns True p
           else Returns False p))"

subsection \<open>The registry\<close>

text \<open>
  \<open>popIdle\<close>: the front of the list under \<open>PoolFIFO\<close>, its back otherwise. \<open>Len\<close> of a
  nil list panics.
\<close>

definition popIdle :: "pool \<Rightarrow> (ptr \<times> err option) outcome" where
  "popIdle p0 =
     (let p = p0\<lparr>popCalls := popCalls p0 + 1\<rparr> in
      if closed p then Returns (0, Some ErrClosed) p
      else (case idleConns p of
              None \<Rightarrow> Panics
            | Some ics \<Rightarrow>
                if length ics = 0 then Returns (0, None) p
                else (let cn = (if PoolFIFO (cfg p) then hd ics else last ics);
                          rest = (if PoolFIFO (cfg p) then tl ics else butlast ics)
                      in Returns (cn, None)
                           (checkMinIdleConns
                              (p\<lparr>idleConns := Some rest,
                                 idleConnsLen := idleConnsLen p - 1\<rparr>)))))"

text \<open>
  \<open>removeConn\<close>: the loop stops at the first element that is the pointer \<open>cn\<close> and
  removes it (\<open>remove1\<close>); \<open>Front\<close> of a nil list panics, and so does \<open>cn.pooled\<close> on a
  nil connection found in the list.
\<close>

definition removeConn :: "ptr \<Rightarrow> pool \<Rightarrow> unit outcome" where
  "removeConn cn p =
     (case conns p of
        None \<Rightarrow> Panics
      | Some cs \<Rightarrow>
          if cn \<in> set cs
          then (let p1 = p\<lparr>conns := Some (remove1 cn cs)\<rparr> in
                case heap p1 cn of
                  None \<Rightarrow> Panics
                | Some c \<Rightarrow>
                    if pooled c
                    then Returns () (checkMinIdleConns (p1\<lparr>poolSize := poolSize p1 - 1\<rparr>))
                    else Returns () p1)
          else Returns () p)"

definition removeConnWithLock :: "ptr \<Rightarrow> pool \<Rightarrow> unit outcome" where
  "removeConnWithLock cn p = removeConn cn p"

definition spawn :: "task \<Rightarrow> pool \<Rightarrow> pool" where
  "spawn t p = p\<lparr>tasks := tasks p @ [t]\<rparr>"

definition Remove :: "ptr \<Rightarrow> err option \<Rightarrow> pool \<Rightarrow> unit outcome" where
  "Remove cn reason p =
     (case removeConnWithLock cn p of
        Panics \<Rightarrow> Panics
      | Blocks \<Rightarrow> Blocks
      | Returns _ p1 \<Rightarrow>
          (case freeTurn p1 of
             Panics \<Rightarrow> Panics
           | Blocks \<Rightarrow> Blocks
           | Returns _ p2 \<Rightarrow>
               (case closeConn cn p2 of
                  Panics \<Rightarrow> Panics
                | Blocks \<Rightarrow> Blocks
                | Returns _ p3 \<Rightarrow> Returns () p3)))"

definition AsyncRemove :: "ptr \<Rightarrow> err option \<Rightarrow> pool \<Rightarrow> unit outcome" where
  "AsyncRemove cn reason p =
     (case removeConnWithLock cn p of
        Panics \<Rightarrow> Panics
      | Blocks \<Rightarrow> Blocks
      | Returns _ p1 \<Rightarrow>
          (case freeTurn p1 of
             Panics \<Rightarrow> Panics
           | Blocks \<Rightarrow> Blocks
           | Returns _ p2 \<Rightarrow> Returns () (spawn (CloseTask cn) p2)))"

definition CloseConn :: "ptr \<Rightarrow> pool \<Rightarrow> err option outcome" where
  "CloseConn cn p =
     (case removeConnWithLock cn p of
        Panics \<Rightarrow> Panics
      | Blocks \<Rightarrow> Blocks
      | Returns _ p1 \<Rightarrow>
          closeConn cn
            (p1\<lparr>stats := (stats p1)\<lparr>StaleConns := StaleConns (stats p1) + 1\<rparr>\<rparr>))"

definition AsyncCloseConn :: "ptr \<Rightarrow> pool \<Rightarrow> unit outcome" where
  "AsyncCloseConn cn p =
     (case removeConnWithLock cn p of
        Panics \<Rightarrow> Panics
      | Blocks \<Rightarrow> Blocks
      | Returns _ p1 \<Rightarrow>
          Returns ()
            (spawn (CloseTask cn)
               (p1\<lparr>stats := (stats p1)\<lparr>StaleConns := StaleConns (stats p1) + 1\<rparr>\<rparr>)))"

subsection \<open>Get\<close>

definition idle_size :: "pool \<Rightarrow> nat" where
  "idle_size p = (case idleConns p of None \<Rightarrow> 0 | Some ics \<Rightarrow> length ics)"

lemma checkMinIdleConns_loop_idleConns:
  "idleConns (checkMinIdleConns_loop p) = idleConns p"
  by (induction p rule: checkMinIdleConns_loop.induct)
     (subst checkMinIdleConns_loop.simps, simp)

lemma checkMinIdleConns_idleConns: "idleConns (checkMinIdleConns p) = idleConns p"
  by (simp add: checkMinIdleConns_def checkMinIdleConns_loop_idleConns)

lemma popIdle_idle_size:
  "popIdle p = Returns (cn, e) p1 \<Longrightarrow> idle_size p1 \<le> idle_size p"
  by (auto simp: popIdle_def idle_size_def Let_def checkMinIdleConns_idleConns
           split: if_splits option.splits)

lemma popIdle_idle_size_less:
  "popIdle p = Returns (cn, None) p1 \<Longrightarrow> cn \<noteq> 0 \<Longrightarrow> idle_size p1 < idle_size p"
  by (auto simp: popIdle_def idle_size_def Let_def checkMinIdleConns_idleConns
           split: if_splits option.splits)

lemma isHealthyConn_idleConns:
  "isHealthyConn cn p = Returns ok p1 \<Longrightarrow> idleConns p1 = idleConns p"
  by (auto simp: isHealthyConn_def Let_def split: if_splits option.splits)

lemma removeConn_idleConns:
  "removeConn cn p = Returns u p1 \<Longrightarrow> idleConns p1 = idleConns p"
  by (auto simp: removeConn_def Let_def checkMinIdleConns_idleConns
           split: if_splits option.splits)

lemma AsyncCloseConn_idleConns:
  "AsyncCloseConn cn p = Returns u p1 \<Longrightarrow> idleConns p1 = idleConns p"
  by (auto simp: AsyncCloseConn_def removeConnWithLock_def spawn_def
           dest: removeConn_idleConns split: outcome.splits)

text \<open>
  The loop of \<open>Get\<close>, for a caller that nobody overtakes: its rounds follow one another
  with no step of another caller or goroutine in between (with such steps in between it
  is \<open>Get_loop_steps\<close>, below). \<open>i\<close> is the local counter (it stays between 0 and 3, so
  its 32 bits never wrap). The result is \<open>Some r\<close> when the loop body returns \<open>r\<close> from
  \<open>Get\<close>, and \<open>None\<close> when it leaves the loop with \<open>break\<close>.
\<close>

function Get_loop :: "int \<Rightarrow> pool \<Rightarrow> (ptr \<times> err option) option outcome" where
  "Get_loop i p =
     (case popIdle p of
        Panics \<Rightarrow> Panics
      | Blocks \<Rightarrow> Blocks
      | Returns (cn, Some e) p1 \<Rightarrow> Returns (Some (0, Some e)) p1
      | Returns (cn, None) p1 \<Rightarrow>
          if cn = 0
          then (if 3 \<le> i + 1 then Returns None p1 else Get_loop (i + 1) p1)
          else (case isHealthyConn cn p1 of
                  Panics \<Rightarrow> Panics
                | Blocks \<Rightarrow> Blocks
                | Returns ok p2 \<Rightarrow>
                    if \<not> ok
                    then (case AsyncCloseConn cn p2 of
                            Panics \<Rightarrow> Panics
                          | Blocks \<Rightarrow> Blocks
                          | Returns _ p3 \<Rightarrow> Get_loop i p3)
                    else Returns (Some (cn, None))
                           (p2\<lparr>stats := (stats p2)\<lparr>Hits := Hits (stats p2) + 1\<rparr>\<rparr>)))"
  by pat_completeness auto
termination
proof (relation "measure (\<lambda>(i, p). nat (3 - i) + idle_size p)", goal_cases)
  case 1
  show ?case by simp
next
  case (2 i p x1 p1 cn e)
  then have "idle_size p1 \<le> idle_size p"
    using popIdle_idle_size [of p cn None p1] by simp
  with 2 show ?case by simp
next
  case (3 i p x1 p1 cn e ok p2 u p3)
  then have "idle_size p1 < idle_size p"
    using popIdle_idle_size_less [of p cn p1] by simp
  moreover have "idle_size p3 = idle_size p1"
    using 3 isHealthyConn_idleConns [of cn p1 ok p2] AsyncCloseConn_idleConns [of cn p2 u p3]
    by (simp add: idle_size_def)
  ultimately show ?case by simp
qed

declare Get_loop.simps [simp del]

definition Get :: "ctx \<Rightarrow> wait_event \<Rightarrow> pool \<Rightarrow> (ptr \<times> err option) outcome" where
  "Get ctx ev p =
     (if closed p then Returns (0, Some ErrClosed) p
      else (case waitTurn ctx ev p of
              Panics \<Rightarrow> Panics
            | Blocks \<Rightarrow> Blocks
            | Returns (Some e) p1 \<Rightarrow> Returns (0, Some e) p1
            | Returns None p1 \<Rightarrow>
                (case Get_loop 0 p1 of
                   Panics \<Rightarrow> Panics
                 | Blocks \<Rightarrow> Blocks
                 | Returns (Some r) p2 \<Rightarrow> Returns r p2
                 | Returns None p2 \<Rightarrow>
                     (case newConn True
                             (p2\<lparr>stats := (stats p2)\<lparr>Misses := Misses (stats p2) + 1\<rparr>\<rparr>) of
                        Panics \<Rightarrow> Panics
                      | Blocks \<Rightarrow> Blocks
                      | Returns (newcn, Some e) p3 \<Rightarrow>
                          (case freeTurn p3 of
                             Panics \<Rightarrow> Panics
                           | Blocks \<Rightarrow> Blocks
                           | Returns _ p4 \<Rightarrow> Returns (0, Some e) p4)
                      | Returns (newcn, None) p3 \<Rightarrow> Returns (newcn, None) p3))))"

text \<open>
  The same loop, one step at a time. \<open>Get\<close> holds \<open>connsMu\<close> only inside \<open>popIdle\<close> and
  inside \<open>removeConnWithLock\<close>, so a round of the loop is up to three steps: the pop, the
  health check of the candidate, its eviction. \<open>get_pc\<close> is where the caller stands, with
  its counter \<open>i\<close> and the candidate it has popped; a step says what it found and whether
  the caller goes on in the loop or leaves it (\<open>Leaves None\<close> is the \<open>break\<close>).
\<close>

datatype get_pc = Popping int | Checking int ptr | Evicting int ptr

datatype get_next = Goes get_pc | Leaves "(ptr \<times> err option) option"

datatype event = Empty | Popped ptr | Failed err | Unhealthy ptr | Hit ptr | Evicted ptr

definition Get_step :: "get_pc \<Rightarrow> pool \<Rightarrow> (event \<times> get_next) outcome" where
  "Get_step pc p =
     (case pc of
        Popping i \<Rightarrow>
          (case popIdle p of
             Panics \<Rightarrow> Panics
           | Blocks \<Rightarrow> Blocks
           | Returns (cn, Some e) p1 \<Rightarrow> Returns (Failed e, Leaves (Some (0, Some e))) p1
           | Returns (cn, None) p1 \<Rightarrow>
               if cn = 0
               then (if 3 \<le> i + 1 then Returns (Empty, Leaves None) p1
                     else Returns (Empty, Goes (Popping (i + 1))) p1)
               else Returns (Popped cn, Goes (Checking i cn)) p1)
      | Checking i cn \<Rightarrow>
          (case isHealthyConn cn p of
             Panics \<Rightarrow> Panics
           | Blocks \<Rightarrow> Blocks
           | Returns ok p1 \<Rightarrow>
               if \<not> ok then Returns (Unhealthy cn, Goes (Evicting i cn)) p1
               else Returns (Hit cn, Leaves (Some (cn, None)))
                      (p1\<lparr>stats := (stats p1)\<lparr>Hits := Hits (stats p1) + 1\<rparr>\<rparr>))
      | Evicting i cn \<Rightarrow>
          (case AsyncCloseConn cn p of
             Panics \<Rightarrow> Panics
           | Blocks \<Rightarrow> Blocks
           | Returns _ p1 \<Rightarrow> Returns (Evicted cn, Goes (Popping i)) p1))"

subsection \<open>Put\<close>

text \<open>The log line of the first branch has no effect on the pool.\<close>

definition Put :: "ptr \<Rightarrow> pool \<Rightarrow> unit outcome" where
  "Put cn p =
     (case heap p cn of
        None \<Rightarrow> Panics
      | Some c \<Rightarrow>
          if 0 < rd_Buffered c then AsyncRemove cn (Some BadConnError) p
          else if \<not> pooled c then AsyncRemove cn None p
          else (case (if MaxIdleConns (cfg p) = 0 \<or> idleConnsLen p < MaxIdleConns (cfg p)
                      then (case idleConns p of
                              None \<Rightarrow> Panics
                            | Some ics \<Rightarrow>
                                Returns False
                                  (p\<lparr>idleConns := Some (ics @ [cn]),
                                     idleConnsLen := idleConnsLen p + 1\<rparr>))
                      else (case removeConn cn p of
                              Panics \<Rightarrow> Panics
                            | Blocks \<Rightarrow> Blocks
                            | Returns _ p1 \<Rightarrow> Returns True p1)) of
                  Panics \<Rightarrow> Panics
                | Blocks \<Rightarrow> Blocks
                | Returns shouldCloseConn p1 \<Rightarrow>
                    (case freeTurn p1 of
                       Panics \<Rightarrow> Panics
                     | Blocks \<Rightarrow> Blocks
                     | Returns _ p2 \<Rightarrow>
                         if shouldCloseConn then Returns () (spawn (CloseTask cn) p2)
                         else Returns () p2)))"

subsection \<open>Len, IdleLen, Stats\<close>

text \<open>\<open>Stats_of\<close> is the method \<open>Stats\<close>; the name \<open>Stats\<close> is taken by the record.\<close>

definition Len :: "pool \<Rightarrow> int outcome" where
  "Len p = (case conns p of None \<Rightarrow> Panics | Some cs \<Rightarrow> Returns (int (length cs)) p)"

definition IdleLen :: "pool \<Rightarrow> int outcome" where
  "IdleLen p = Returns (idleConnsLen p) p"

definition Stats_of :: "pool \<Rightarrow> Stats outcome" where
  "Stats_of p =
     (case Len p of
        Panics \<Rightarrow> Panics
      | Blocks \<Rightarrow> Blocks
      | Returns n p1 \<Rightarrow>
          (case IdleLen p1 of
             Panics \<Rightarrow> Panics
           | Blocks \<Rightarrow> Blocks
           | Returns m p2 \<Rightarrow>
               Returns \<lparr>Hits = Hits (stats p2), Misses = Misses (stats p2),
                        Timeouts = Timeouts (stats p2), TotalConns = word_of_int n,
                        IdleConns = word_of_int m, StaleConns = StaleConns (stats p2)\<rparr> p2))"

subsection \<open>Filter and Close\<close>

text \<open>The loop of \<open>Filter\<close> over the elements of \<open>conns\<close>, from the front.\<close>

fun Filter_loop :: "(ptr \<Rightarrow> bool) \<Rightarrow> ptr list \<Rightarrow> err option \<Rightarrow> pool \<Rightarrow> err option outcome" where
  "Filter_loop fn [] firstErr p = Returns firstErr p"
| "Filter_loop fn (cn # cs) firstErr p =
     (if fn cn
      then (case closeConn cn p of
              Panics \<Rightarrow> Panics
            | Blocks \<Rightarrow> Blocks
            | Returns e p1 \<Rightarrow>
                Filter_loop fn cs (if e \<noteq> None \<and> firstErr = None then e else firstErr) p1)
      else Filter_loop fn cs firstErr p)"

definition Filter :: "(ptr \<Rightarrow> bool) \<Rightarrow> pool \<Rightarrow> err option outcome" where
  "Filter fn p = (case conns p of None \<Rightarrow> Panics | Some cs \<Rightarrow> Filter_loop fn cs None p)"

text \<open>The loop of \<open>Close\<close> over the elements of \<open>conns\<close>, from the front.\<close>

fun Close_loop :: "ptr list \<Rightarrow> err option \<Rightarrow> pool \<Rightarrow> err option outcome" where
  "Close_loop [] firstErr p = Returns firstErr p"
| "Close_loop (cn # cs) firstErr p =
     (case closeConn cn p of
        Panics \<Rightarrow> Panics
      | Blocks \<Rightarrow> Blocks
      | Returns e p1 \<Rightarrow>
          Close_loop cs (if e \<noteq> None \<and> firstErr = None then e else firstErr) p1)"

definition Close :: "pool \<Rightarrow> err option outcome" where
  "Close p =
     (if closed_flag p \<noteq> 0 then Returns (Some ErrClosed) p
      else (let p1 = p\<lparr>closed_flag := 1\<rparr> in
            case conns p1 of
              None \<Rightarrow> Panics
            | Some cs \<Rightarrow>
                (case Close_loop cs None p1 of
                   Panics \<Rightarrow> Panics
                 | Blocks \<Rightarrow> Blocks
                 | Returns firstErr p2 \<Rightarrow>
                     Returns firstErr
                       (p2\<lparr>conns := None, poolSize := 0, idleConns := None,
                          idleConnsLen := 0\<rparr>))))"

subsection \<open>The reaper\<close>

definition reapStaleConn :: "pool \<Rightarrow> ptr outcome" where
  "reapStaleConn p =
     (case idleConns p of
        None \<Rightarrow> Panics
      | Some ics \<Rightarrow>
          if length ics = 0 then Returns 0 p
          else (let cn = hd ics in
                case isStaleConn cn p of
                  Panics \<Rightarrow> Panics
                | Blocks \<Rightarrow> Blocks
                | Returns stale p1 \<Rightarrow>
                    if \<not> stale then Returns 0 p1
                    else (case removeConn cn
                                 (p1\<lparr>idleConns := Some (tl ics),
                                     idleConnsLen := idleConnsLen p1 - 1\<rparr>) of
                            Panics \<Rightarrow> Panics
                          | Blocks \<Rightarrow> Blocks
                          | Returns _ p2 \<Rightarrow> Returns cn p2)))"

lemma isStaleConn_same: "isStaleConn cn p = Returns b p1 \<Longrightarrow> p1 = p"
  by (auto simp: isStaleConn_def Let_def split: if_splits option.splits)

lemma reapStaleConn_idle_size:
  "reapStaleConn p = Returns cn p1 \<Longrightarrow> cn \<noteq> 0 \<Longrightarrow> idle_size p1 < idle_size p"
  by (auto simp: reapStaleConn_def Let_def idle_size_def
           dest!: isStaleConn_same removeConn_idleConns
           split: if_splits option.splits outcome.splits)

lemma getTurn_idleConns: "getTurn p = Returns u p1 \<Longrightarrow> idleConns p1 = idleConns p"
  by (auto simp: getTurn_def split: if_splits)

lemma freeTurn_idleConns: "freeTurn p = Returns u p1 \<Longrightarrow> idleConns p1 = idleConns p"
  by (auto simp: freeTurn_def split: if_splits)

lemma closeConn_idleConns: "closeConn cn p = Returns e p1 \<Longrightarrow> idleConns p1 = idleConns p"
  by (auto simp: closeConn_def Conn_Close_def split: option.splits)

text \<open>The loop of \<open>ReapStaleConns\<close>; \<open>n\<close> is its local counter.\<close>

function ReapStaleConns_loop :: "int \<Rightarrow> pool \<Rightarrow> int outcome" where
  "ReapStaleConns_loop n p =
     (case getTurn p of
        Panics \<Rightarrow> Panics
      | Blocks \<Rightarrow> Blocks
      | Returns _ p1 \<Rightarrow>
          (case reapStaleConn p1 of
             Panics \<Rightarrow> Panics
           | Blocks \<Rightarrow> Blocks
           | Returns cn p2 \<Rightarrow>
               (case freeTurn p2 of
                  Panics \<Rightarrow> Panics
                | Blocks \<Rightarrow> Blocks
                | Returns _ p3 \<Rightarrow>
                    if cn \<noteq> 0
                    then (case closeConn cn p3 of
                            Panics \<Rightarrow> Panics
                          | Blocks \<Rightarrow> Blocks
                          | Returns _ p4 \<Rightarrow> ReapStaleConns_loop (n + 1) p4)
                    else Returns n p3)))"
  by pat_completeness auto
termination
proof (relation "measure (\<lambda>(n, p). idle_size p)", goal_cases)
  case 1
  show ?case by simp
next
  case (2 n p u p1 cn p2 v p3 e p4)
  then have "idle_size p2 < idle_size p1"
    using reapStaleConn_idle_size [of p1 cn p2] by simp
  moreover have "idle_size p1 = idle_size p" "idle_size p3 = idle_size p2"
    "idle_size p4 = idle_size p3"
    using 2 getTurn_idleConns [of p u p1] freeTurn_idleConns [of p2 v p3]
      closeConn_idleConns [of cn p3 e p4]
    by (simp_all add: idle_size_def)
  ultimately show ?case by simp
qed

declare ReapStaleConns_loop.simps [simp del]

definition ReapStaleConns :: "pool \<Rightarrow> (int \<times> err option) outcome" where
  "ReapStaleConns p =
     (case ReapStaleConns_loop 0 p of
        Panics \<Rightarrow> Panics
      | Blocks \<Rightarrow> Blocks
      | Returns n p1 \<Rightarrow>
          Returns (n, None)
            (p1\<lparr>stats := (stats p1)\<lparr>StaleConns := StaleConns (stats p1) + word_of_int n\<rparr>\<rparr>))"

text \<open>One tick of the ticker of \<open>reaper\<close>; the result says whether the goroutine goes on.\<close>

definition reaper_tick :: "pool \<Rightarrow> bool outcome" where
  "reaper_tick p =
     (if closed p then Returns False p
      else (case ReapStaleConns p of
              Panics \<Rightarrow> Panics
            | Blocks \<Rightarrow> Blocks
            | Returns _ p1 \<Rightarrow> Returns True p1))"

subsection \<open>Construction\<close>

text \<open>
  The pool that the composite literal of \<open>NewConnPool\<close> makes: two empty lists, an empty
  channel, zero everywhere else; no connection exists yet and no goroutine runs.
\<close>

definition fresh_pool :: "options \<Rightarrow> pool" where
  "fresh_pool opt =
     \<lparr>cfg = opt, dialErrorsNum = 0, lastDialError = None, queue = 0,
      conns = Some [], idleConns = Some [], poolSize = 0, idleConnsLen = 0,
      stats = \<lparr>Hits = 0, Misses = 0, Timeouts = 0, TotalConns = 0,
               IdleConns = 0, StaleConns = 0\<rparr>,
      closed_flag = 0, heap = (\<lambda>_. None), nextConn = 1, clock = 0, tasks = [],
      dialCalls = 0, popCalls = 0, closeCalls = (\<lambda>_. 0), probeCloses = 0\<rparr>"

text \<open>\<open>make\<close> of a channel of negative capacity panics.\<close>

definition NewConnPool :: "options \<Rightarrow> unit outcome" where
  "NewConnPool opt =
     (if PoolSize opt < 0 then Panics
      else Returns () (checkMinIdleConns (fresh_pool opt)))"

subsection \<open>Goroutines and schedules\<close>

text \<open>One step of a goroutine.\<close>

definition run_task :: "task \<Rightarrow> pool \<Rightarrow> unit outcome" where
  "run_task t p =
     (case t of
        AddIdleTask \<Rightarrow> addIdleConn_begin p
      | AddIdleDialing r \<Rightarrow> addIdleConn_dialed r p
      | AddIdleReturned e \<Rightarrow> addIdleConn_returned e p
      | CloseTask cn \<Rightarrow>
          (case closeConn cn p of
             Panics \<Rightarrow> Panics
           | Blocks \<Rightarrow> Blocks
           | Returns _ p1 \<Rightarrow> Returns () p1)
      | ProbeTask \<Rightarrow>
          (case tryDial_round p of
             (again, p1) \<Rightarrow> Returns () (if again then spawn ProbeTask p1 else p1)))"

text \<open>
  A schedule is a list of steps: calls of the public methods by the callers, steps of the
  goroutines (\<open>Task_op k\<close> runs the next step of the \<open>k\<close>-th goroutine in \<open>tasks\<close>), and steps of
  the world: the clock advances, a socket breaks or receives bytes nobody asked for.
\<close>

datatype op =
    Get_op ctx wait_event
  | Put_op ptr
  | Remove_op ptr "err option"
  | NewConn_op
  | CloseConn_op ptr
  | Filter_op "ptr \<Rightarrow> bool"
  | Close_op
  | Len_op
  | IdleLen_op
  | Stats_op
  | ReapStaleConns_op
  | Reaper_op
  | Task_op nat
  | Tick_op nat
  | Break_op ptr
  | Recv_op ptr nat

definition discard :: "'a outcome \<Rightarrow> unit outcome" where
  "discard r = (case r of Panics \<Rightarrow> Panics | Blocks \<Rightarrow> Blocks | Returns _ p \<Rightarrow> Returns () p)"

definition world_conn :: "ptr \<Rightarrow> (conn \<Rightarrow> conn) \<Rightarrow> pool \<Rightarrow> pool" where
  "world_conn cn f p =
     (case heap p cn of None \<Rightarrow> p | Some c \<Rightarrow> p\<lparr>heap := (heap p)(cn \<mapsto> f c)\<rparr>)"

fun exec :: "op \<Rightarrow> pool \<Rightarrow> unit outcome" where
  "exec (Get_op ctx ev) p = discard (Get ctx ev p)"
| "exec (Put_op cn) p = Put cn p"
| "exec (Remove_op cn reason) p = Remove cn reason p"
| "exec NewConn_op p = discard (NewConn p)"
| "exec (CloseConn_op cn) p = discard (CloseConn cn p)"
| "exec (Filter_op fn) p = discard (Filter fn p)"
| "exec Close_op p = discard (Close p)"
| "exec Len_op p = discard (Len p)"
| "exec IdleLen_op p = discard (IdleLen p)"
| "exec Stats_op p = discard (Stats_of p)"
| "exec ReapStaleConns_op p = discard (ReapStaleConns p)"
| "exec Reaper_op p = discard (reaper_tick p)"
| "exec (Task_op k) p =
     (if k < length (tasks p)
      then run_task (tasks p ! k) (p\<lparr>tasks := take k (tasks p) @ drop (Suc k) (tasks p)\<rparr>)
      else Returns () p)"
| "exec (Tick_op d) p = Returns () (p\<lparr>clock := clock p + int d\<rparr>)"
| "exec (Break_op cn) p = Returns () (world_conn cn (\<lambda>c. c\<lparr>sock_broken := True\<rparr>) p)"
| "exec (Recv_op cn n) p = Returns () (world_conn cn (\<lambda>c. c\<lparr>rd_Buffered := int n\<rparr>) p)"

text \<open>A schedule runs to its end unless a step panics or blocks.\<close>

fun run :: "op list \<Rightarrow> pool \<Rightarrow> unit outcome" where
  "run [] p = Returns () p"
| "run (x # xs) p =
     (case exec x p of
        Panics \<Rightarrow> Panics
      | Blocks \<Rightarrow> Blocks
      | Returns _ p1 \<Rightarrow> run xs p1)"

subsection \<open>The loop of Get among the steps of others\<close>

text \<open>
  \<open>Get_loop_steps envs pc p\<close> runs the loop of \<open>Get\<close> from \<open>pc\<close>: after each of its steps
  that stays in the loop, the next schedule of \<open>envs\<close> runs (calls of other callers,
  steps of the goroutines and of the world); once \<open>envs\<close> is used up the caller is alone.
  The result is what the loop gives, as in \<open>Get_loop\<close>, and the steps the caller has
  made, each with the pool before and after it.
\<close>

definition step_size :: "get_pc \<Rightarrow> pool \<Rightarrow> nat" where
  "step_size pc p =
     (case pc of
        Popping i \<Rightarrow> 3 * (nat (3 - i) + idle_size p)
      | Checking i cn \<Rightarrow> 3 * (nat (3 - i) + idle_size p) + 2
      | Evicting i cn \<Rightarrow> 3 * (nat (3 - i) + idle_size p) + 1)"

lemma Get_step_size:
  assumes "Get_step pc p = Returns (ev, Goes pc') p1"
  shows "step_size pc' p1 < step_size pc p"
proof (cases pc)
  case (Popping i)
  with assms obtain cn where pop: "popIdle p = Returns (cn, None) p1"
    and c: "if cn = 0 then \<not> 3 \<le> i + 1 \<and> pc' = Popping (i + 1) else pc' = Checking i cn"
    by (auto simp: Get_step_def split: outcome.splits option.splits if_splits)
  show ?thesis
  proof (cases "cn = 0")
    case True
    with c have "nat (3 - (i + 1)) < nat (3 - i)" and "pc' = Popping (i + 1)" by simp_all
    moreover have "idle_size p1 \<le> idle_size p"
      using pop by (rule popIdle_idle_size)
    ultimately show ?thesis using Popping by (simp add: step_size_def)
  next
    case False
    with c have "pc' = Checking i cn" by simp
    moreover have "idle_size p1 < idle_size p"
      using pop False by (rule popIdle_idle_size_less)
    ultimately show ?thesis using Popping by (simp add: step_size_def)
  qed
next
  case (Checking i cn)
  with assms obtain ok where "isHealthyConn cn p = Returns ok p1" "pc' = Evicting i cn"
    by (auto simp: Get_step_def split: outcome.splits if_splits)
  with Checking show ?thesis
    using isHealthyConn_idleConns [of cn p ok p1] by (simp add: step_size_def idle_size_def)
next
  case (Evicting i cn)
  with assms obtain u where "AsyncCloseConn cn p = Returns u p1" "pc' = Popping i"
    by (auto simp: Get_step_def split: outcome.splits)
  with Evicting show ?thesis
    using AsyncCloseConn_idleConns [of cn p u p1] by (simp add: step_size_def idle_size_def)
qed

function Get_loop_steps ::
  "op list list \<Rightarrow> get_pc \<Rightarrow> pool \<Rightarrow>
     ((ptr \<times> err option) option \<times> (event \<times> pool \<times> pool) list) outcome" where
  "Get_loop_steps envs pc p =
     (case Get_step pc p of
        Panics \<Rightarrow> Panics
      | Blocks \<Rightarrow> Blocks
      | Returns (ev, Leaves r) p1 \<Rightarrow> Returns (r, [(ev, p, p1)]) p1
      | Returns (ev, Goes pc') p1 \<Rightarrow>
          (case run (case envs of [] \<Rightarrow> [] | env # rest \<Rightarrow> env) p1 of
             Panics \<Rightarrow> Panics
           | Blocks \<Rightarrow> Blocks
           | Returns _ p2 \<Rightarrow>
               (case Get_loop_steps (tl envs) pc' p2 of
                  Panics \<Rightarrow> Panics
                | Blocks \<Rightarrow> Blocks
                | Returns (r, log) p3 \<Rightarrow> Returns (r, (ev, p, p1) # log) p3)))"
  by pat_completeness auto
termination
proof (relation "measures [\<lambda>(envs, pc, p). length envs, \<lambda>(envs, pc, p). step_size pc p]",
       goal_cases)
  case 1
  show ?case by simp
next
  case (2 envs pc p x1 p1 ev nxt pc' u p2)
  show ?case
  proof (cases envs)
    case Nil
    with 2 have "p2 = p1" by simp
    moreover from 2 have "step_size pc' p1 < step_size pc p"
      using Get_step_size [of pc p ev pc' p1] by simp
    ultimately show ?thesis using Nil by simp
  next
    case (Cons env rest)
    then show ?thesis by simp
  qed
qed

declare Get_loop_steps.simps [simp del]

subsection \<open>A pool that has been shut\<close>




subsection \<open>The idle bound\<close>

text \<open>The bound on the idle counter, for a configuration whose floor fits under its cap.\<close>

definition idle_ok :: "pool \<Rightarrow> bool" where
  "idle_ok p =
     (0 < MaxIdleConns (cfg p) \<and> MinIdleConns (cfg p) \<le> MaxIdleConns (cfg p) \<and>
      idleConnsLen p \<le> MaxIdleConns (cfg p))"

subsection \<open>Counting the calls of Get\<close>

text \<open>
  \<open>served\<close> is \<open>stats.Hits + stats.Misses\<close>. Along a schedule, \<open>successful_gets\<close>
  counts the calls of \<open>Get\<close> that return a connection, and \<open>failed_dial_gets\<close> those
  that take a ticket, leave the loop with a miss and then fail in \<open>newConn\<close>.
\<close>

definition served :: "pool \<Rightarrow> uint32" where
  "served p = Hits (stats p) + Misses (stats p)"

definition Get_ok :: "ctx \<Rightarrow> wait_event \<Rightarrow> pool \<Rightarrow> bool" where
  "Get_ok ctx ev p = (case Get ctx ev p of Returns (cn, None) p' \<Rightarrow> True | _ \<Rightarrow> False)"

definition Get_missed_failed :: "ctx \<Rightarrow> wait_event \<Rightarrow> pool \<Rightarrow> bool" where
  "Get_missed_failed ctx ev p =
     (\<not> closed p \<and>
      (case waitTurn ctx ev p of
         Returns None p1 \<Rightarrow>
           (case Get_loop 0 p1 of
              Returns None p2 \<Rightarrow>
                (case newConn True
                        (p2\<lparr>stats := (stats p2)\<lparr>Misses := Misses (stats p2) + 1\<rparr>\<rparr>) of
                   Returns (cn, Some e) p3 \<Rightarrow> True
                 | _ \<Rightarrow> False)
            | _ \<Rightarrow> False)
       | _ \<Rightarrow> False))"

fun successful_gets :: "op list \<Rightarrow> pool \<Rightarrow> nat" where
  "successful_gets [] p = 0"
| "successful_gets (x # xs) p =
     (case exec x p of
        Returns _ p1 \<Rightarrow>
          (case x of Get_op ctx ev \<Rightarrow> (if Get_ok ctx ev p then 1 else 0) | _ \<Rightarrow> 0) +
          successful_gets xs p1
      | _ \<Rightarrow> 0)"

fun failed_dial_gets :: "op list \<Rightarrow> pool \<Rightarrow> nat" where
  "failed_dial_gets [] p = 0"
| "failed_dial_gets (x # xs) p =
     (case exec x p of
        Returns _ p1 \<Rightarrow>
          (case x of Get_op ctx ev \<Rightarrow> (if Get_missed_failed ctx ev p then 1 else 0) | _ \<Rightarrow> 0) +
          failed_dial_gets xs p1
      | _ \<Rightarrow> 0)"

subsection \<open>Closes of a connection\<close>

text \<open>
  \<open>pending p c\<close> counts the asynchronous closes of \<open>c\<close> that have been started and have
  not run; \<open>acct p c\<close> adds the calls of \<open>Close\<close> on \<open>c\<close> that have been made.
  \<open>bump c\<close> is what a call of \<open>Close\<close> on \<open>c\<close> does to the counters.
\<close>

definition pending :: "pool \<Rightarrow> ptr \<Rightarrow> nat" where
  "pending p c = count_list (tasks p) (CloseTask c)"

definition acct :: "pool \<Rightarrow> ptr \<Rightarrow> nat" where
  "acct p c = closeCalls p c + pending p c"

definition bump :: "ptr \<Rightarrow> pool \<Rightarrow> pool" where
  "bump cn p = p\<lparr>closeCalls := (closeCalls p)(cn := closeCalls p cn + 1)\<rparr>"

text \<open>
  The registry is in order, for a set \<open>H\<close> of connections that callers hold: no dial
  can return, or has returned to a filler, a nil connection without an error; the
  connections are the pointers from 1
  up to \<open>nextConn\<close>; while the pool is open the attached ones are distinct and have no
  close made or started, every other one has exactly one, the idle ones are attached,
  distinct and not held, and the held ones are attached; once the pool is closed every
  connection has exactly one close made or started.
\<close>

definition safe :: "ptr set \<Rightarrow> pool \<Rightarrow> bool" where
  "safe H p =
     (word_of_int (PoolSize (cfg p)) \<noteq> (0 :: uint32) \<and>
      (dialErrorsNum p \<noteq> 0 \<longrightarrow> lastDialError p \<noteq> None) \<and>
      AddIdleReturned None \<notin> set (tasks p) \<and>
      0 < nextConn p \<and>
      (\<forall>c. c = 0 \<or> nextConn p \<le> c \<longrightarrow> acct p c = 0) \<and>
      (case conns p of
         None \<Rightarrow>
           closed_flag p = 1 \<and> idleConns p = None \<and>
           (\<forall>c. 0 < c \<and> c < nextConn p \<longrightarrow> acct p c = 1)
       | Some cs \<Rightarrow>
           closed_flag p = 0 \<and> distinct cs \<and>
           (\<forall>c \<in> set cs. 0 < c \<and> c < nextConn p \<and> acct p c = 0) \<and>
           (\<forall>c. 0 < c \<and> c < nextConn p \<and> c \<notin> set cs \<longrightarrow> acct p c = 1) \<and>
           H \<subseteq> set cs \<and>
           (case idleConns p of
              None \<Rightarrow> False
            | Some ics \<Rightarrow> distinct ics \<and> set ics \<subseteq> set cs \<and> H \<inter> set ics = {})))"

text \<open>
  Callers that keep to the protocol: a step gives back (\<open>Put\<close>, \<open>Remove\<close>, \<open>CloseConn\<close>)
  only a connection that a \<open>Get\<close> or \<open>NewConn\<close> has handed out and that has not been given
  back since. \<open>polite xs p H\<close> checks this along the schedule \<open>xs\<close> from the pool \<open>p\<close> with
  \<open>H\<close> held, and that no step is a \<open>Filter\<close>.
\<close>

fun returned :: "op \<Rightarrow> ptr option" where
  "returned (Put_op cn) = Some cn"
| "returned (Remove_op cn reason) = Some cn"
| "returned (CloseConn_op cn) = Some cn"
| "returned x = None"

fun granted :: "op \<Rightarrow> pool \<Rightarrow> ptr option" where
  "granted (Get_op ctx ev) p =
     (case Get ctx ev p of Returns (cn, None) p' \<Rightarrow> Some cn | _ \<Rightarrow> None)"
| "granted NewConn_op p =
     (case NewConn p of Returns (cn, None) p' \<Rightarrow> Some cn | _ \<Rightarrow> None)"
| "granted x p = None"

definition held_after :: "op \<Rightarrow> pool \<Rightarrow> ptr set \<Rightarrow> ptr set" where
  "held_after x p H =
     (case returned x of
        Some cn \<Rightarrow> H - {cn}
      | None \<Rightarrow> (case granted x p of Some cn \<Rightarrow> insert cn H | None \<Rightarrow> H))"

fun is_Filter :: "op \<Rightarrow> bool" where
  "is_Filter (Filter_op fn) = True"
| "is_Filter x = False"

fun polite :: "op list \<Rightarrow> pool \<Rightarrow> ptr set \<Rightarrow> bool" where
  "polite [] p H = True"
| "polite (x # xs) p H =
     (\<not> is_Filter x \<and>
      (case returned x of Some cn \<Rightarrow> cn \<in> H | None \<Rightarrow> True) \<and>
      (case exec x p of
         Returns _ p1 \<Rightarrow> polite xs p1 (held_after x p H)
       | Panics \<Rightarrow> True
       | Blocks \<Rightarrow> True))"

subsection \<open>The rounds of the loop of Get\<close>

text \<open>
  What the steps of one \<open>Get\<close> in its loop must look like, in the order it makes them.
  \<open>is_pop\<close> tells the steps that call \<open>popIdle\<close>. \<open>loop_shape n es r\<close> holds when the steps
  \<open>es\<close> are rounds of the loop that end with the result \<open>r\<close>, after \<open>n\<close> pops that
  returned no connection: such a pop is the last step when it is the third and then the
  loop is left by \<open>break\<close> (\<open>r = None\<close>), otherwise the loop goes on with one more counted; a
  pop that returns a candidate is followed by its health check, and either the candidate
  is healthy and is the result at once, or it is unhealthy and is evicted, and the loop
  goes on with no more counted than before; an error of \<open>popIdle\<close> is the result at once.
  \<open>empties\<close> counts the pops that returned no connection.
\<close>

fun is_pop :: "event \<Rightarrow> bool" where
  "is_pop Empty = True"
| "is_pop (Popped cn) = True"
| "is_pop (Failed e) = True"
| "is_pop (Unhealthy cn) = False"
| "is_pop (Hit cn) = False"
| "is_pop (Evicted cn) = False"

fun loop_shape :: "nat \<Rightarrow> event list \<Rightarrow> (ptr \<times> err option) option \<Rightarrow> bool" where
  "loop_shape n [Empty] r = (n = 2 \<and> r = None)"
| "loop_shape n (Empty # ev # es) r = (n < 2 \<and> loop_shape (Suc n) (ev # es) r)"
| "loop_shape n [Failed e] r = (r = Some (0, Some e))"
| "loop_shape n [Popped cn, Hit cn'] r = (cn \<noteq> 0 \<and> cn' = cn \<and> r = Some (cn, None))"
| "loop_shape n (Popped cn # Unhealthy cn' # Evicted cn'' # es) r =
     (cn \<noteq> 0 \<and> cn' = cn \<and> cn'' = cn \<and> loop_shape n es r)"
| "loop_shape n es r = False"

definition empties :: "event list \<Rightarrow> nat" where
  "empties es = length (filter (\<lambda>ev. ev = Empty) es)"

text \<open>
  What a step of the caller does to the pool, from \<open>q\<close> to \<open>q'\<close>: the call of \<open>popIdle\<close>,
  of \<open>isHealthyConn\<close> (a hit also adds one to \<open>stats.Hits\<close>), or of \<open>AsyncCloseConn\<close>, which
  takes the candidate out of \<open>conns\<close>, starts one goroutine that closes it, adds one to
  \<open>stats.StaleConns\<close> and leaves the channel as it is.
\<close>

definition step_facts :: "event \<Rightarrow> pool \<Rightarrow> pool \<Rightarrow> bool" where
  "step_facts ev q q' =
     (case ev of
        Empty \<Rightarrow> popIdle q = Returns (0, None) q'
      | Popped cn \<Rightarrow> cn \<noteq> 0 \<and> popIdle q = Returns (cn, None) q'
      | Failed e \<Rightarrow> e = ErrClosed \<and> closed q \<and> popIdle q = Returns (0, Some e) q'
      | Unhealthy cn \<Rightarrow> isHealthyConn cn q = Returns False q'
      | Hit cn \<Rightarrow>
          isHealthyConn cn q = Returns True (q'\<lparr>stats := stats q\<rparr>) \<and>
          Hits (stats q') = Hits (stats q) + 1
      | Evicted cn \<Rightarrow>
          AsyncCloseConn cn q = Returns () q' \<and>
          conns q' = map_option (remove1 cn) (conns q) \<and> conns q \<noteq> None \<and>
          pending q' cn = pending q cn + 1 \<and>
          StaleConns (stats q') = StaleConns (stats q) + 1 \<and> queue q' = queue q)"

subsection \<open>Concrete pools\<close>

text \<open>A pool of two slots whose dialer always succeeds, and the same pool with both
  tickets taken.\<close>

definition opts_two :: options where
  "opts_two =
     \<lparr>Dialer = (\<lambda>_. None), PoolFIFO = False, PoolSize = 2, PoolTimeout = 5,
      MinIdleConns = 0, MaxIdleConns = 0, ConnMaxIdleTime = 0, ConnMaxLifetime = 0\<rparr>"

definition full_pool :: pool where
  "full_pool = (fresh_pool opts_two)\<lparr>queue := 2\<rparr>"

text \<open>
  The pool of two slots after one \<open>Get\<close>, the \<open>Put\<close> of its connection, and the loss of
  that connection's socket: one idle connection, which is broken.
\<close>

definition broken_idle_pool :: pool where
  "broken_idle_pool =
     (fresh_pool opts_two)
       \<lparr>conns := Some [1], idleConns := Some [1], poolSize := 1, idleConnsLen := 1,
        stats := \<lparr>Hits = 0, Misses = 1, Timeouts = 0, TotalConns = 0, IdleConns = 0,
                  StaleConns = 0\<rparr>,
        heap := (\<lambda>_. None)(1 \<mapsto>
                  \<lparr>pooled = True, createdAt = 0, usedAt = 0, rd_Buffered = 0,
                   sock_broken = True, sock_closeErr = None\<rparr>),
        nextConn := 2, dialCalls := 1, popCalls := 3\<rparr>"

text \<open>
  A pool of one slot that wants one idle connection. \<open>NewConnPool\<close> reserves the slot
  for the filler, which has not dialed yet.
\<close>

definition opts_min :: options where
  "opts_min =
     \<lparr>Dialer = (\<lambda>_. None), PoolFIFO = False, PoolSize = 1, PoolTimeout = 5,
      MinIdleConns = 1, MaxIdleConns = 0, ConnMaxIdleTime = 0, ConnMaxLifetime = 0\<rparr>"

definition reserved_pool :: pool where
  "reserved_pool =
     (fresh_pool opts_min)\<lparr>poolSize := 1, idleConnsLen := 1, tasks := [AddIdleTask]\<rparr>"

text \<open>A connection as \<open>dialConn\<close> makes it at time 0.\<close>

definition new_conn :: "bool \<Rightarrow> conn" where
  "new_conn pl =
     \<lparr>pooled = pl, createdAt = 0, usedAt = 0, rd_Buffered = 0, sock_broken = False,
      sock_closeErr = None\<rparr>"

text \<open>The pool of one slot after a \<open>Get\<close> that had to dial while the slot was reserved.\<close>

definition unpooled_pool :: pool where
  "unpooled_pool =
     reserved_pool
       \<lparr>queue := 1, conns := Some [1],
        stats := \<lparr>Hits = 0, Misses = 1, Timeouts = 0, TotalConns = 0, IdleConns = 0,
                  StaleConns = 0\<rparr>,
        heap := (\<lambda>_. None)(1 \<mapsto> new_conn False), nextConn := 2, dialCalls := 1,
        popCalls := 3\<rparr>"

text \<open>
  A pool of two slots that keeps at most one idle connection, after two \<open>Get\<close>s and the
  \<open>Put\<close> of the first connection.
\<close>

definition opts_cap :: options where
  "opts_cap =
     \<lparr>Dialer = (\<lambda>_. None), PoolFIFO = False, PoolSize = 2, PoolTimeout = 5,
      MinIdleConns = 0, MaxIdleConns = 1, ConnMaxIdleTime = 0, ConnMaxLifetime = 0\<rparr>"

definition capped_pool :: pool where
  "capped_pool =
     (fresh_pool opts_cap)
       \<lparr>queue := 1, conns := Some [1, 2], idleConns := Some [1], poolSize := 2,
        idleConnsLen := 1,
        stats := \<lparr>Hits = 0, Misses = 2, Timeouts = 0, TotalConns = 0, IdleConns = 0,
                  StaleConns = 0\<rparr>,
        heap := (\<lambda>_. None)(1 \<mapsto> new_conn True, 2 \<mapsto> new_conn True), nextConn := 3,
        dialCalls := 2, popCalls := 6\<rparr>"

text \<open>
  A pool of two slots whose dialer fails twice and succeeds from then on, after one and
  after two failed dials.
\<close>

definition opts_down :: options where
  "opts_down =
     \<lparr>Dialer = (\<lambda>n. if n < 2 then Some (DialError n) else None), PoolFIFO = False,
      PoolSize = 2, PoolTimeout = 5, MinIdleConns = 0, MaxIdleConns = 0,
      ConnMaxIdleTime = 0, ConnMaxLifetime = 0\<rparr>"

definition failed_once_pool :: pool where
  "failed_once_pool =
     (fresh_pool opts_down)
       \<lparr>dialErrorsNum := 1, lastDialError := Some (DialError 0), dialCalls := 1\<rparr>"

definition tripped_pool :: pool where
  "tripped_pool =
     (fresh_pool opts_down)
       \<lparr>dialErrorsNum := 2, lastDialError := Some (DialError 1), tasks := [ProbeTask],
        dialCalls := 2\<rparr>"

text \<open>A pool of two slots that wants two idle connections and keeps at most one.\<close>

definition opts_over :: options where
  "opts_over =
     \<lparr>Dialer = (\<lambda>_. None), PoolFIFO = False, PoolSize = 2, PoolTimeout = 5,
      MinIdleConns = 2, MaxIdleConns = 1, ConnMaxIdleTime = 0, ConnMaxLifetime = 0\<rparr>"

text \<open>
  A schedule over an outage: three \<open>Get\<close>s that fail (two on the dial, one on the open
  circuit), the prober, then a \<open>Get\<close> that dials, its \<open>Put\<close>, and a \<open>Get\<close> that hits.
\<close>

definition outage_schedule :: "op list" where
  "outage_schedule =
     [Get_op None TimerFires, Get_op None TimerFires, Get_op None TimerFires, Task_op 0,
      Get_op None TimerFires, Put_op 1, Get_op None TimerFires]"

text \<open>
  Two \<open>Get\<close>s, both connections put back (the second overflows \<open>MaxIdleConns\<close>), the
  asynchronous close, and \<open>Close\<close>.
\<close>

definition overflow_schedule :: "op list" where
  "overflow_schedule =
     [Get_op None TimerFires, Get_op None TimerFires, Put_op 1, Put_op 2, Task_op 0,
      Close_op]"

text \<open>
  A pool of two slots whose dialer never succeeds, after two failed dials; and the pool
  whose dialer failed twice, closed after the second failure.
\<close>

definition opts_outage :: options where
  "opts_outage =
     \<lparr>Dialer = (\<lambda>n. Some (DialError n)), PoolFIFO = False,
      PoolSize = 2, PoolTimeout = 5, MinIdleConns = 0, MaxIdleConns = 0,
      ConnMaxIdleTime = 0, ConnMaxLifetime = 0\<rparr>"

definition outage_pool :: pool where
  "outage_pool =
     (fresh_pool opts_outage)
       \<lparr>dialErrorsNum := 2, lastDialError := Some (DialError 1), tasks := [ProbeTask],
        dialCalls := 2\<rparr>"

definition closed_tripped_pool :: pool where
  "closed_tripped_pool =
     tripped_pool\<lparr>conns := None, idleConns := None, closed_flag := 1\<rparr>"

text \<open>
  A pool of two slots that wants one idle connection and whose dialer never succeeds,
  at the moment its filler has called the Dialer and waits for it.
\<close>

definition opts_cold :: options where
  "opts_cold =
     \<lparr>Dialer = (\<lambda>n. Some (DialError n)), PoolFIFO = False,
      PoolSize = 2, PoolTimeout = 5, MinIdleConns = 1, MaxIdleConns = 0,
      ConnMaxIdleTime = 0, ConnMaxLifetime = 0\<rparr>"

definition dialing_pool :: pool where
  "dialing_pool =
     (fresh_pool opts_cold)
       \<lparr>poolSize := 1, idleConnsLen := 1, tasks := [AddIdleDialing (Some (DialError 0))],
        dialCalls := 1\<rparr>"

text \<open>
  The pool with one broken idle connection, once a caller of \<open>Get\<close> has taken its ticket.
\<close>

definition taken_pool :: pool where
  "taken_pool = broken_idle_pool\<lparr>queue := 1\<rparr>"

subsection \<open>The filler in closed form\<close>

text \<open>How many slots \<open>checkMinIdleConns\<close> reserves: as many as both bounds leave room for.\<close>

definition fill :: "pool \<Rightarrow> nat" where
  "fill p =
     (if MinIdleConns (cfg p) = 0 then 0
      else nat (min (PoolSize (cfg p) - poolSize p) (MinIdleConns (cfg p) - idleConnsLen p)))"

lemma checkMinIdleConns_loop_eq:
  "checkMinIdleConns_loop p =
     p\<lparr>poolSize := poolSize p + int (nat (min (PoolSize (cfg p) - poolSize p) (MinIdleConns (cfg p) - idleConnsLen p))),
       idleConnsLen := idleConnsLen p + int (nat (min (PoolSize (cfg p) - poolSize p) (MinIdleConns (cfg p) - idleConnsLen p))),
       tasks := tasks p @ replicate (nat (min (PoolSize (cfg p) - poolSize p) (MinIdleConns (cfg p) - idleConnsLen p))) AddIdleTask\<rparr>"
proof (induction p rule: checkMinIdleConns_loop.induct)
  case (1 p)
  show ?case
  proof (cases "poolSize p < PoolSize (cfg p) \<and> idleConnsLen p < MinIdleConns (cfg p)")
    case True
    let ?k = "nat (min (PoolSize (cfg p) - poolSize p) (MinIdleConns (cfg p) - idleConnsLen p))"
    from True obtain m where m: "?k = Suc m"
      by (cases ?k) auto
    have k': "nat (min (PoolSize (cfg p) - (poolSize p + 1)) (MinIdleConns (cfg p) - (idleConnsLen p + 1))) = m"
      using m by linarith
    show ?thesis
      apply (subst checkMinIdleConns_loop.simps)
      using True 1 [OF True] k' m
      by (simp add: replicate_app_Cons_same)
  next
    case False
    then have "nat (min (PoolSize (cfg p) - poolSize p) (MinIdleConns (cfg p) - idleConnsLen p)) = 0"
      by auto
    moreover have "checkMinIdleConns_loop p = p"
      by (subst checkMinIdleConns_loop.simps) (use False in auto)
    ultimately show ?thesis by simp
  qed
qed

lemma checkMinIdleConns_eq:
  "checkMinIdleConns p =
     p\<lparr>poolSize := poolSize p + int (fill p), idleConnsLen := idleConnsLen p + int (fill p),
       tasks := tasks p @ replicate (fill p) AddIdleTask\<rparr>"
  by (simp add: checkMinIdleConns_def fill_def checkMinIdleConns_loop_eq)

subsection \<open>What each internal operation leaves unchanged\<close>

lemma removeConn_frame:
  "removeConn cn p = Returns u p' \<Longrightarrow>
     stats p' = stats p \<and> queue p' = queue p \<and> cfg p' = cfg p \<and>
     closed_flag p' = closed_flag p \<and> heap p' = heap p \<and> idleConns p' = idleConns p \<and>
     closeCalls p' = closeCalls p \<and> popCalls p' = popCalls p \<and> dialCalls p' = dialCalls p \<and>
     nextConn p' = nextConn p \<and> clock p' = clock p \<and> dialErrorsNum p' = dialErrorsNum p \<and>
     lastDialError p' = lastDialError p \<and> probeCloses p' = probeCloses p"
  by (auto simp: removeConn_def Let_def checkMinIdleConns_eq split: if_splits option.splits)

lemma popIdle_frame:
  "popIdle p = Returns r p' \<Longrightarrow>
     stats p' = stats p \<and> queue p' = queue p \<and> cfg p' = cfg p \<and>
     closed_flag p' = closed_flag p \<and> heap p' = heap p \<and> conns p' = conns p \<and>
     closeCalls p' = closeCalls p \<and> popCalls p' = popCalls p + 1 \<and> dialCalls p' = dialCalls p \<and>
     nextConn p' = nextConn p \<and> clock p' = clock p \<and> dialErrorsNum p' = dialErrorsNum p \<and>
     lastDialError p' = lastDialError p \<and> probeCloses p' = probeCloses p"
  by (auto simp: popIdle_def Let_def checkMinIdleConns_eq split: if_splits option.splits)

lemma isHealthyConn_frame:
  "isHealthyConn cn p = Returns ok p' \<Longrightarrow>
     stats p' = stats p \<and> queue p' = queue p \<and> cfg p' = cfg p \<and>
     closed_flag p' = closed_flag p \<and> conns p' = conns p \<and> idleConns p' = idleConns p \<and>
     poolSize p' = poolSize p \<and> idleConnsLen p' = idleConnsLen p \<and> tasks p' = tasks p \<and>
     closeCalls p' = closeCalls p \<and> popCalls p' = popCalls p \<and> dialCalls p' = dialCalls p \<and>
     nextConn p' = nextConn p \<and> clock p' = clock p \<and> dialErrorsNum p' = dialErrorsNum p \<and>
     lastDialError p' = lastDialError p \<and> probeCloses p' = probeCloses p"
  by (auto simp: isHealthyConn_def Let_def split: if_splits option.splits)

lemma AsyncCloseConn_frame:
  "AsyncCloseConn cn p = Returns u p' \<Longrightarrow>
     StaleConns (stats p') = StaleConns (stats p) + 1 \<and> Hits (stats p') = Hits (stats p) \<and>
     Misses (stats p') = Misses (stats p) \<and> Timeouts (stats p') = Timeouts (stats p) \<and>
     queue p' = queue p \<and> cfg p' = cfg p \<and>
     closed_flag p' = closed_flag p \<and> heap p' = heap p \<and> idleConns p' = idleConns p \<and>
     closeCalls p' = closeCalls p \<and> popCalls p' = popCalls p \<and> dialCalls p' = dialCalls p \<and>
     nextConn p' = nextConn p \<and> clock p' = clock p \<and> dialErrorsNum p' = dialErrorsNum p \<and>
     lastDialError p' = lastDialError p \<and> probeCloses p' = probeCloses p"
  by (auto simp: AsyncCloseConn_def removeConnWithLock_def spawn_def
           dest!: removeConn_frame split: outcome.splits)

subsection \<open>Evaluation of concrete schedules\<close>

lemmas eval_defs =
  fresh_pool_def closed_def getTurn_def freeTurn_def waitTurn_def checkMinIdleConns_eq fill_def
  Conn_Close_def closeConn_def setLastDialError_def getLastDialError_def NewConn_alloc_def
  dialConn_def tryDial_round_def dialConn_begin_def dialConn_end_def addIdleConn_attach_def
  addIdleConn_begin_def addIdleConn_dialed_def addIdleConn_returned_def newConn_def NewConn_def
  isHealthyConn_def isStaleConn_def popIdle_def removeConn_def removeConnWithLock_def spawn_def
  Remove_def AsyncRemove_def CloseConn_def AsyncCloseConn_def Get_loop.simps Get_def Put_def
  Len_def IdleLen_def Stats_of_def Filter_def Close_def reapStaleConn_def
  ReapStaleConns_loop.simps ReapStaleConns_def reaper_tick_def NewConnPool_def run_task_def
  discard_def world_conn_def Let_def

lemma broken_idle_pool_reachable:
  "run [Get_op None TimerFires, Put_op 1, Break_op 1] (fresh_pool opts_two) =
     Returns () broken_idle_pool"
  by (simp add: broken_idle_pool_def opts_two_def eval_defs)

subsection \<open>The loop of Get\<close>

text \<open>One round of the loop on an unhealthy candidate.\<close>

lemma Get_loop_unhealthy:
  assumes "popIdle p = Returns (cn, None) p1" "cn \<noteq> 0"
    "isHealthyConn cn p1 = Returns False p2" "AsyncCloseConn cn p2 = Returns u p3"
  shows "Get_loop i p = Get_loop i p3"
  using assms by (subst Get_loop.simps) simp

lemma popIdle_open:
  assumes "\<not> closed p" "idleConns p = Some ics" "popIdle p = Returns (cn, e) p1"
  shows "e = None \<and> closed_flag p1 = closed_flag p \<and> popCalls p1 = popCalls p + 1 \<and>
     (if ics = [] then cn = 0 \<and> idleConns p1 = Some []
      else cn \<in> set ics \<and>
           (\<exists>rest. idleConns p1 = Some rest \<and> set rest \<subseteq> set ics \<and>
                   Suc (length rest) = length ics))"
  using assms
  by (auto simp: popIdle_def Let_def closed_def checkMinIdleConns_eq
           dest: in_set_butlastD list.set_sel(2) split: if_splits)

lemma reserved_pool_reachable: "NewConnPool opts_min = Returns () reserved_pool"
  by (simp add: reserved_pool_def opts_min_def eval_defs)

lemma dialing_pool_reachable:
  "\<exists>p0. NewConnPool opts_cold = Returns () p0 \<and> run [Task_op 0] p0 = Returns () dialing_pool"
  by (simp add: dialing_pool_def opts_cold_def eval_defs)

lemma tripped_pool_reachable:
  "run [NewConn_op] (fresh_pool opts_down) = Returns () failed_once_pool"
  "run [NewConn_op, NewConn_op] (fresh_pool opts_down) = Returns () tripped_pool"
  by (simp_all add: failed_once_pool_def tripped_pool_def opts_down_def eval_defs
        word_le_nat_alt)

lemma outage_pool_reachable:
  "run [NewConn_op, NewConn_op] (fresh_pool opts_outage) = Returns () outage_pool"
  "run [NewConn_op, NewConn_op, Close_op] (fresh_pool opts_down) = Returns () closed_tripped_pool"
  by (simp_all add: outage_pool_def closed_tripped_pool_def tripped_pool_def opts_outage_def
        opts_down_def eval_defs word_le_nat_alt)

lemma taken_pool_reachable:
  "waitTurn None TimerFires broken_idle_pool = Returns None taken_pool"
  by (simp add: taken_pool_def broken_idle_pool_def opts_two_def waitTurn_def fresh_pool_def)

subsection \<open>The loop of Get, step by step\<close>

lemma loop_shape_empties:
  "loop_shape n es r \<Longrightarrow> n \<le> 2 \<Longrightarrow>
     n + empties es \<le> 3 \<and> (r = None \<longleftrightarrow> n + empties es = 3) \<and>
     (r = None \<longrightarrow> last es = Empty)"
  by (induction n es r rule: loop_shape.induct) (auto simp: empties_def)

lemma AsyncCloseConn_detach:
  assumes "AsyncCloseConn cn p = Returns u p'"
  shows "conns p' = map_option (remove1 cn) (conns p) \<and> conns p \<noteq> None \<and>
         pending p' cn = pending p cn + 1"
  using assms
  by (auto simp: AsyncCloseConn_def removeConnWithLock_def removeConn_def spawn_def Let_def
        checkMinIdleConns_eq pending_def remove1_idem
        split: outcome.splits option.splits if_splits)

lemma Get_step_facts:
  assumes "Get_step pc p = Returns (ev, nxt) p'"
  shows "popCalls p' = popCalls p + (if is_pop ev then 1 else 0) \<and> step_facts ev p p'"
proof (cases pc)
  case (Popping i)
  with assms obtain cn e where pop: "popIdle p = Returns (cn, e) p'"
    and ev: "ev = (case e of Some e' \<Rightarrow> Failed e' | None \<Rightarrow> if cn = 0 then Empty else Popped cn)"
    by (auto simp: Get_step_def split: outcome.splits option.splits if_splits)
  from pop have "e \<noteq> None \<longrightarrow> e = Some ErrClosed \<and> closed p \<and> cn = 0"
    by (auto simp: popIdle_def Let_def closed_def split: if_splits option.splits)
  with pop ev popIdle_frame [OF pop] show ?thesis
    by (auto simp: step_facts_def split: option.splits)
next
  case (Checking i cn)
  with assms obtain ok p1 where h: "isHealthyConn cn p = Returns ok p1"
    and ev: "ev = (if ok then Hit cn else Unhealthy cn)"
    and p': "p' = (if ok then p1\<lparr>stats := (stats p1)\<lparr>Hits := Hits (stats p1) + 1\<rparr>\<rparr> else p1)"
    by (auto simp: Get_step_def split: outcome.splits if_splits)
  from isHealthyConn_frame [OF h] have f: "stats p1 = stats p" "popCalls p1 = popCalls p"
    by simp_all
  then have "p1\<lparr>stats := stats p\<rparr> = p1" by (metis pool.surjective pool.update_convs(9))
  with h ev p' f show ?thesis by (auto simp: step_facts_def)
next
  case (Evicting i cn)
  with assms obtain u where a: "AsyncCloseConn cn p = Returns u p'" and ev: "ev = Evicted cn"
    by (auto simp: Get_step_def split: outcome.splits)
  from AsyncCloseConn_frame [OF a] AsyncCloseConn_detach [OF a] a ev show ?thesis
    by (auto simp: step_facts_def)
qed

lemma Get_loop_steps_cases:
  assumes "Get_loop_steps envs pc p = Returns (r, log) p'"
  obtains (leaves) ev where "Get_step pc p = Returns (ev, Leaves r) p'" "log = [(ev, p, p')]"
  | (goes) ev pc' p1 u p2 log' where "Get_step pc p = Returns (ev, Goes pc') p1"
      "run (case envs of [] \<Rightarrow> [] | env # rest \<Rightarrow> env) p1 = Returns u p2"
      "Get_loop_steps (tl envs) pc' p2 = Returns (r, log') p'" "log = (ev, p, p1) # log'"
  using assms
  by (subst (asm) Get_loop_steps.simps)
     (auto split: outcome.splits prod.splits get_next.splits)

lemma Get_loop_steps_log:
  "Get_loop_steps envs pc p = Returns (r, log) p' \<Longrightarrow> (ev, q, q') \<in> set log \<Longrightarrow>
     popCalls q' = popCalls q + (if is_pop ev then 1 else 0) \<and> step_facts ev q q'"
proof (induction envs pc p arbitrary: r log p' rule: Get_loop_steps.induct)
  case (1 envs pc p)
  from "1.prems"(1) show ?case
  proof (cases rule: Get_loop_steps_cases)
    case (leaves ev0)
    with "1.prems"(2) Get_step_facts [OF leaves(1)] show ?thesis by simp
  next
    case (goes ev0 pc' p1 u p2 log')
    show ?thesis
    proof (cases "(ev, q, q') = (ev0, p, p1)")
      case True
      with Get_step_facts [OF goes(1)] show ?thesis by simp
    next
      case False
      with "1.prems"(2) goes(4) have "(ev, q, q') \<in> set log'" by auto
      with "1.IH" [OF goes(1) refl refl goes(2,3)] show ?thesis .
    qed
  qed
qed

lemma Get_loop_steps_shape:
  "Get_loop_steps envs pc p = Returns (r, log) p' \<Longrightarrow>
     (case pc of
        Popping i \<Rightarrow> 0 \<le> i \<and> i \<le> 2 \<longrightarrow> loop_shape (nat i) (map fst log) r
      | Checking i cn \<Rightarrow>
          0 \<le> i \<and> i \<le> 2 \<and> cn \<noteq> 0 \<longrightarrow> loop_shape (nat i) (Popped cn # map fst log) r
      | Evicting i cn \<Rightarrow>
          0 \<le> i \<and> i \<le> 2 \<and> cn \<noteq> 0 \<longrightarrow>
            loop_shape (nat i) (Popped cn # Unhealthy cn # map fst log) r)"
proof (induction envs pc p arbitrary: r log p' rule: Get_loop_steps.induct)
  case (1 envs pc p)
  from "1.prems"(1) show ?case
  proof (cases rule: Get_loop_steps_cases)
    case (leaves ev)
    then show ?thesis
      by (cases pc)
         (auto simp: Get_step_def split: outcome.splits option.splits if_splits)
  next
    case (goes ev pc' p1 u p2 log')
    note IH = "1.IH" [OF goes(1) refl refl goes(2,3)]
    from goes(3) have ne: "log' \<noteq> []"
      by (cases rule: Get_loop_steps_cases) auto
    show ?thesis
    proof (cases pc)
      case (Popping i)
      with goes(1) consider "ev = Empty" "pc' = Popping (i + 1)" "\<not> 3 \<le> i + 1"
        | cn where "ev = Popped cn" "pc' = Checking i cn" "cn \<noteq> 0"
        by (auto simp: Get_step_def split: outcome.splits option.splits if_splits)
      then show ?thesis
      proof cases
        case 1
        from ne obtain e es where l: "map fst log' = e # es" by (cases log') auto
        show ?thesis
        proof (simp add: Popping goes(4) 1 l, intro impI)
          assume a: "0 \<le> i \<and> i \<le> 2"
          with 1 IH l have "loop_shape (nat (i + 1)) (e # es) r" by simp
          moreover from a 1 have "nat (i + 1) = Suc (nat i)" "nat i < 2" by simp_all
          ultimately show "nat i < 2 \<and> loop_shape (Suc (nat i)) (e # es) r" by simp
        qed
      next
        case 2
        with IH Popping goes(4) show ?thesis by simp
      qed
    next
      case (Checking i cn)
      with goes(1) have "ev = Unhealthy cn" "pc' = Evicting i cn"
        by (auto simp: Get_step_def split: outcome.splits if_splits)
      with IH Checking goes(4) show ?thesis by simp
    next
      case (Evicting i cn)
      with goes(1) have "ev = Evicted cn" "pc' = Popping i"
        by (auto simp: Get_step_def split: outcome.splits)
      with IH Evicting goes(4) show ?thesis by simp
    qed
  qed
qed

text \<open>With nobody in between, the steps of the caller make the loop of \<open>Get\<close>.\<close>

lemma Get_loop_alone:
  "Get_loop i p =
     (case Get_loop_steps [] (Popping i) p of
        Panics \<Rightarrow> Panics
      | Blocks \<Rightarrow> Blocks
      | Returns (r, log) p' \<Rightarrow> Returns r p')"
proof (induction i p rule: Get_loop.induct)
  case (1 i p)
  show ?case
  proof (cases "popIdle p")
    case Panics
    then show ?thesis
      by (subst Get_loop.simps, subst Get_loop_steps.simps) (simp add: Get_step_def)
  next
    case Blocks
    then show ?thesis
      by (subst Get_loop.simps, subst Get_loop_steps.simps) (simp add: Get_step_def)
  next
    case (Returns x p1)
    obtain cn e where x: "x = (cn, e)" by (cases x)
    show ?thesis
    proof (cases e)
      case (Some a)
      with Returns x show ?thesis
        by (subst Get_loop.simps, subst Get_loop_steps.simps) (simp add: Get_step_def)
    next
      case None
      show ?thesis
      proof (cases "cn = 0")
        case True
        with Returns x None "1.IH"(1) [OF Returns x [symmetric] None] show ?thesis
          by (subst Get_loop.simps, subst Get_loop_steps.simps)
             (simp add: Get_step_def split: outcome.splits prod.splits)
      next
        case False
        have st: "Get_loop_steps [] (Popping i) p =
            (case Get_loop_steps [] (Checking i cn) p1 of
               Panics \<Rightarrow> Panics | Blocks \<Rightarrow> Blocks
             | Returns (r, log) p3 \<Rightarrow> Returns (r, (Popped cn, p, p1) # log) p3)"
          using Returns x None False
          by (subst Get_loop_steps.simps) (simp add: Get_step_def)
        show ?thesis
        proof (cases "isHealthyConn cn p1")
          case Panics
          with Returns x None False st show ?thesis
            by (subst Get_loop.simps, subst (asm) Get_loop_steps.simps [of _ "Checking i cn"])
               (simp add: Get_step_def)
        next
          case Blocks
          with Returns x None False st show ?thesis
            by (subst Get_loop.simps, subst (asm) Get_loop_steps.simps [of _ "Checking i cn"])
               (simp add: Get_step_def)
        next
          case h: (Returns ok p2)
          show ?thesis
          proof (cases ok)
            case True
            with h Returns x None False st show ?thesis
              by (subst Get_loop.simps, subst (asm) Get_loop_steps.simps [of _ "Checking i cn"])
                 (simp add: Get_step_def)
          next
            case nok: False
            have st2: "Get_loop_steps [] (Checking i cn) p1 =
                (case Get_loop_steps [] (Evicting i cn) p2 of
                   Panics \<Rightarrow> Panics | Blocks \<Rightarrow> Blocks
                 | Returns (r, log) p3 \<Rightarrow> Returns (r, (Unhealthy cn, p1, p2) # log) p3)"
              using h nok by (subst Get_loop_steps.simps) (simp add: Get_step_def)
            show ?thesis
            proof (cases "AsyncCloseConn cn p2")
              case Panics
              with h nok Returns x None False st st2 show ?thesis
                by (subst Get_loop.simps, subst (asm) Get_loop_steps.simps [of _ "Evicting i cn"])
                   (simp add: Get_step_def)
            next
              case Blocks
              with h nok Returns x None False st st2 show ?thesis
                by (subst Get_loop.simps, subst (asm) Get_loop_steps.simps [of _ "Evicting i cn"])
                   (simp add: Get_step_def)
            next
              case a: (Returns u p3)
              have st3: "Get_loop_steps [] (Evicting i cn) p2 =
                  (case Get_loop_steps [] (Popping i) p3 of
                     Panics \<Rightarrow> Panics | Blocks \<Rightarrow> Blocks
                   | Returns (r, log) p4 \<Rightarrow> Returns (r, (Evicted cn, p2, p3) # log) p4)"
                using a by (subst Get_loop_steps.simps) (simp add: Get_step_def)
              have "Get_loop i p = Get_loop i p3"
                using Returns x None False h nok a by (subst Get_loop.simps) simp
              with "1.IH"(2) [OF Returns x [symmetric] None False h nok a] st st2 st3
              show ?thesis by (simp split: outcome.splits prod.splits)
            qed
          qed
        qed
      qed
    qed
  qed
qed

subsection \<open>Invariants of the loop of Get\<close>

lemma Get_loop_invariant:
  assumes "Get_loop i p = Returns r p'" "P p"
    and pop: "\<And>q x q'. P q \<Longrightarrow> popIdle q = Returns x q' \<Longrightarrow> P q'"
    and hl: "\<And>q cn ok q'. P q \<Longrightarrow> isHealthyConn cn q = Returns ok q' \<Longrightarrow> P q'"
    and ac: "\<And>q cn u q'. P q \<Longrightarrow> AsyncCloseConn cn q = Returns u q' \<Longrightarrow> P q'"
    and hit: "\<And>q. P q \<Longrightarrow> P (q\<lparr>stats := (stats q)\<lparr>Hits := Hits (stats q) + 1\<rparr>\<rparr>)"
  shows "P p'"
  using assms(1,2)
proof (induction i p rule: Get_loop.induct)
  case (1 i p)
  from "1.prems"(1) obtain x p1 where po: "popIdle p = Returns x p1"
    by (subst (asm) Get_loop.simps) (auto split: outcome.splits)
  obtain cn e where x: "x = (cn, e)" by (cases x)
  have P1: "P p1" using pop [OF "1.prems"(2) po] .
  show ?case
  proof (cases e)
    case (Some a)
    with "1.prems"(1) po x have "p' = p1"
      by (subst (asm) Get_loop.simps) simp
    with P1 show ?thesis by simp
  next
    case None
    show ?thesis
    proof (cases "cn = 0")
      case True
      show ?thesis
      proof (cases "3 \<le> i + 1")
        case t: True
        with "1.prems"(1) po x None True have "p' = p1"
          by (subst (asm) Get_loop.simps) simp
        with P1 show ?thesis by simp
      next
        case f: False
        with "1.prems"(1) po x None True have "Get_loop (i + 1) p1 = Returns r p'"
          by (subst (asm) Get_loop.simps) simp
        from "1.IH"(1) [OF po x [symmetric] None True f this P1] show ?thesis .
      qed
    next
      case False
      with "1.prems"(1) po x None obtain ok p2 where h: "isHealthyConn cn p1 = Returns ok p2"
        by (subst (asm) Get_loop.simps) (auto split: outcome.splits)
      have P2: "P p2" using hl [OF P1 h] .
      show ?thesis
      proof (cases ok)
        case True
        with "1.prems"(1) po x None False h
        have "p' = p2\<lparr>stats := (stats p2)\<lparr>Hits := Hits (stats p2) + 1\<rparr>\<rparr>"
          by (subst (asm) Get_loop.simps) simp
        with hit [OF P2] show ?thesis by simp
      next
        case nok: False
        with "1.prems"(1) po x None False h obtain u p3
          where a: "AsyncCloseConn cn p2 = Returns u p3"
          by (subst (asm) Get_loop.simps) (auto split: outcome.splits)
        from "1.prems"(1) po x None False h nok a have g: "Get_loop i p3 = Returns r p'"
          by (subst (asm) Get_loop.simps) simp
        from "1.IH"(2) [OF po x [symmetric] None False h nok a g ac [OF P2 a]]
        show ?thesis .
      qed
    qed
  qed
qed

lemma Get_loop_poolSize:
  assumes "Get_loop i p = Returns r p'" "poolSize p \<le> PoolSize (cfg p)"
  shows "poolSize p' \<le> PoolSize (cfg p') \<and> cfg p' = cfg p"
proof -
  have "poolSize p' \<le> PoolSize (cfg p') \<and> cfg p' = cfg p"
  proof (rule Get_loop_invariant [OF assms(1),
        where P = "\<lambda>q. poolSize q \<le> PoolSize (cfg q) \<and> cfg q = cfg p"])
    show "poolSize p \<le> PoolSize (cfg p) \<and> cfg p = cfg p" using assms(2) by simp
  next
    fix q x q' assume "poolSize q \<le> PoolSize (cfg q) \<and> cfg q = cfg p" "popIdle q = Returns x q'"
    then show "poolSize q' \<le> PoolSize (cfg q') \<and> cfg q' = cfg p"
      by (auto simp: popIdle_def Let_def checkMinIdleConns_eq fill_def split: if_splits option.splits)
  next
    fix q cn ok q' assume "poolSize q \<le> PoolSize (cfg q) \<and> cfg q = cfg p"
      "isHealthyConn cn q = Returns ok q'"
    then show "poolSize q' \<le> PoolSize (cfg q') \<and> cfg q' = cfg p"
      by (auto dest!: isHealthyConn_frame)
  next
    fix q cn u q' assume "poolSize q \<le> PoolSize (cfg q) \<and> cfg q = cfg p"
      "AsyncCloseConn cn q = Returns u q'"
    then show "poolSize q' \<le> PoolSize (cfg q') \<and> cfg q' = cfg p"
      by (auto simp: AsyncCloseConn_def removeConnWithLock_def removeConn_def spawn_def Let_def
            checkMinIdleConns_eq fill_def split: if_splits option.splits outcome.splits)
  qed auto
  then show ?thesis .
qed


subsection \<open>The bound on poolSize\<close>

lemma newConn_full:
  assumes "newConn True p = Returns (cn, None) p'" "PoolSize (cfg p) \<le> poolSize p"
  shows "\<exists>cs c. conns p = Some cs \<and> conns p' = Some (cs @ [cn]) \<and> heap p' cn = Some c \<and>
           \<not> pooled c \<and> poolSize p' = poolSize p"
  using assms
  by (auto simp: newConn_def dialConn_def NewConn_alloc_def Let_def Conn_Close_def
           setLastDialError_def getLastDialError_def
           split: if_splits option.splits outcome.splits prod.splits)

lemma newConn_poolSize:
  assumes "newConn pl p = Returns r p'" "poolSize p \<le> PoolSize (cfg p)"
  shows "poolSize p' \<le> PoolSize (cfg p') \<and> cfg p' = cfg p"
  using assms
  by (auto simp: newConn_def dialConn_def NewConn_alloc_def Let_def Conn_Close_def
           setLastDialError_def getLastDialError_def
           split: if_splits option.splits outcome.splits prod.splits)

lemma Get_poolSize:
  assumes "Get ctx ev p = Returns r p'" "poolSize p \<le> PoolSize (cfg p)"
  shows "poolSize p' \<le> PoolSize (cfg p')"
proof (cases "closed p")
  case True
  with assms show ?thesis by (simp add: Get_def)
next
  case False
  with assms(1) obtain e p1 where w: "waitTurn ctx ev p = Returns e p1"
    by (auto simp: Get_def split: outcome.splits)
  then have p1: "poolSize p1 = poolSize p" "cfg p1 = cfg p"
    by (auto simp: waitTurn_def split: option.splits if_splits wait_event.splits)
  show ?thesis
  proof (cases e)
    case (Some a)
    with assms False w p1 show ?thesis by (simp add: Get_def)
  next
    case None
    with assms(1) False w obtain l p2 where g: "Get_loop 0 p1 = Returns l p2"
      by (auto simp: Get_def split: outcome.splits)
    from p1 assms(2) have "poolSize p1 \<le> PoolSize (cfg p1)" by simp
    from Get_loop_poolSize [OF g this]
    have p2: "poolSize p2 \<le> PoolSize (cfg p2)" by (rule conjunct1)
    show ?thesis
    proof (cases l)
      case (Some r')
      with assms(1) False w None g p2 show ?thesis by (simp add: Get_def)
    next
      case n: None
      let ?q = "p2\<lparr>stats := (stats p2)\<lparr>Misses := Misses (stats p2) + 1\<rparr>\<rparr>"
      from assms(1) False w None g n obtain x p3 where nc: "newConn True ?q = Returns x p3"
        by (auto simp: Get_def split: outcome.splits)
      from p2 have "poolSize ?q \<le> PoolSize (cfg ?q)" by simp
      from newConn_poolSize [OF nc this] have p3: "poolSize p3 \<le> PoolSize (cfg p3)"
        by (rule conjunct1)
      from assms(1) False w None g n nc p3 show ?thesis
        by (auto simp: Get_def freeTurn_def split: outcome.splits option.splits if_splits prod.splits)
    qed
  qed
qed

lemma Put_unpooled:
  assumes "Put cn p = Returns u p'" "heap p cn = Some c" "\<not> pooled c"
  shows "idleConns p' = idleConns p \<and> idleConnsLen p' = idleConnsLen p \<and>
         poolSize p' = poolSize p \<and> tasks p' = tasks p @ [CloseTask cn] \<and>
         queue p' + 1 = queue p \<and>
         (\<exists>cs. conns p = Some cs \<and> conns p' = Some (remove1 cn cs))"
  using assms
  by (auto simp: Put_def AsyncRemove_def removeConnWithLock_def removeConn_def freeTurn_def
           spawn_def Let_def remove1_idem split: if_splits option.splits outcome.splits)

lemma unpooled_pool_reachable:
  "Get None TimerFires reserved_pool = Returns (1, None) unpooled_pool"
  by (simp add: unpooled_pool_def new_conn_def reserved_pool_def opts_min_def eval_defs)

lemma capped_pool_reachable:
  "run [Get_op None TimerFires, Get_op None TimerFires, Put_op 1] (fresh_pool opts_cap) =
     Returns () capped_pool"
  by (simp add: capped_pool_def new_conn_def opts_cap_def eval_defs fun_eq_iff)

subsection \<open>The branches of Put\<close>

lemma Put_returns:
  assumes "heap p cn = Some c" "conns p = Some cs" "idleConns p = Some ics" "0 < queue p"
  shows "\<exists>p'. Put cn p = Returns () p'"
  using assms
  by (auto simp: Put_def AsyncRemove_def removeConnWithLock_def removeConn_def freeTurn_def
           spawn_def Let_def checkMinIdleConns_eq split: if_splits option.splits outcome.splits)

lemma Put_ticket:
  assumes "Put cn p = Returns u p'"
  shows "queue p' + 1 = queue p"
  using assms
  by (auto simp: Put_def AsyncRemove_def removeConnWithLock_def removeConn_def freeTurn_def
           spawn_def Let_def checkMinIdleConns_eq split: if_splits option.splits outcome.splits)

lemma Put_buffered:
  assumes "Put cn p = Returns u p'" "heap p cn = Some c" "0 < rd_Buffered c"
  shows "Put cn p = AsyncRemove cn (Some BadConnError) p \<and> idleConns p' = idleConns p \<and>
         (\<exists>cs. conns p = Some cs \<and> conns p' = Some (remove1 cn cs)) \<and>
         CloseTask cn \<in> set (tasks p')"
  using assms
  by (auto simp: Put_def AsyncRemove_def removeConnWithLock_def removeConn_def freeTurn_def
           spawn_def Let_def checkMinIdleConns_eq remove1_idem
           split: if_splits option.splits outcome.splits)

lemma Put_idle:
  assumes "Put cn p = Returns u p'" "heap p cn = Some c" "\<not> 0 < rd_Buffered c" "pooled c"
    "MaxIdleConns (cfg p) = 0 \<or> idleConnsLen p < MaxIdleConns (cfg p)"
  shows "(\<exists>ics. idleConns p = Some ics \<and> idleConns p' = Some (ics @ [cn])) \<and>
         idleConnsLen p' = idleConnsLen p + 1 \<and> conns p' = conns p \<and>
         poolSize p' = poolSize p \<and> tasks p' = tasks p"
  using assms
  by (auto simp: Put_def freeTurn_def split: if_splits option.splits outcome.splits)

lemma Put_overflow:
  assumes "Put cn p = Returns u p'" "heap p cn = Some c" "\<not> 0 < rd_Buffered c" "pooled c"
    "\<not> (MaxIdleConns (cfg p) = 0 \<or> idleConnsLen p < MaxIdleConns (cfg p))"
  shows "idleConns p' = idleConns p \<and>
         (\<exists>cs. conns p = Some cs \<and> conns p' = Some (remove1 cn cs) \<and>
            (cn \<in> set cs \<longrightarrow>
               (\<exists>k. poolSize p' = poolSize p - 1 + int k \<and>
                    idleConnsLen p' = idleConnsLen p + int k \<and>
                    tasks p' = tasks p @ replicate k AddIdleTask @ [CloseTask cn] \<and>
                    (MinIdleConns (cfg p) = 0 \<longrightarrow> k = 0))))"
  using assms
  by (auto simp: Put_def removeConn_def freeTurn_def spawn_def Let_def checkMinIdleConns_eq
           fill_def remove1_idem split: if_splits option.splits outcome.splits)

subsection \<open>After Close\<close>

lemma Close_loop_frame:
  "Close_loop cs fe p = Returns e p' \<Longrightarrow>
     cfg p' = cfg p \<and> closed_flag p' = closed_flag p \<and> stats p' = stats p \<and>
     queue p' = queue p \<and> heap p' = heap p \<and> tasks p' = tasks p \<and>
     dialErrorsNum p' = dialErrorsNum p \<and> lastDialError p' = lastDialError p"
  by (induction cs arbitrary: fe p)
     (auto simp: closeConn_def Conn_Close_def split: outcome.splits option.splits)









subsection \<open>Invariants of the other loops\<close>

lemma ReapStaleConns_loop_invariant:
  assumes "ReapStaleConns_loop n p = Returns m p'" "P p"
    and gt: "\<And>q u q'. P q \<Longrightarrow> getTurn q = Returns u q' \<Longrightarrow> P q'"
    and rs: "\<And>q cn q'. P q \<Longrightarrow> reapStaleConn q = Returns cn q' \<Longrightarrow> P q'"
    and ft: "\<And>q u q'. P q \<Longrightarrow> freeTurn q = Returns u q' \<Longrightarrow> P q'"
    and cc: "\<And>q cn e q'. P q \<Longrightarrow> closeConn cn q = Returns e q' \<Longrightarrow> P q'"
  shows "P p'"
  using assms(1,2)
proof (induction n p rule: ReapStaleConns_loop.induct)
  case (1 n p)
  from "1.prems"(1) obtain u p1 where g: "getTurn p = Returns u p1"
    by (subst (asm) ReapStaleConns_loop.simps) (auto split: outcome.splits)
  from "1.prems"(1) g obtain cn p2 where r: "reapStaleConn p1 = Returns cn p2"
    by (subst (asm) ReapStaleConns_loop.simps) (auto split: outcome.splits)
  from "1.prems"(1) g r obtain v p3 where f: "freeTurn p2 = Returns v p3"
    by (subst (asm) ReapStaleConns_loop.simps) (auto split: outcome.splits)
  have P3: "P p3" using ft [OF rs [OF gt [OF "1.prems"(2) g] r] f] .
  show ?case
  proof (cases "cn = 0")
    case True
    with "1.prems"(1) g r f have "p' = p3"
      by (subst (asm) ReapStaleConns_loop.simps) simp
    with P3 show ?thesis by simp
  next
    case False
    with "1.prems"(1) g r f obtain e p4 where c: "closeConn cn p3 = Returns e p4"
      by (subst (asm) ReapStaleConns_loop.simps) (auto split: outcome.splits)
    from "1.prems"(1) g r f False c have l: "ReapStaleConns_loop (n + 1) p4 = Returns m p'"
      by (subst (asm) ReapStaleConns_loop.simps) simp
    from "1.IH" [OF g r f False c l cc [OF P3 c]] show ?thesis .
  qed
qed

lemma Filter_loop_invariant:
  assumes "Filter_loop fn cs fe p = Returns e p'" "P p"
    and cc: "\<And>q cn e q'. P q \<Longrightarrow> closeConn cn q = Returns e q' \<Longrightarrow> P q'"
  shows "P p'"
  using assms(1,2)
  by (induction cs arbitrary: fe p) (auto split: outcome.splits if_splits intro: cc)

lemma Close_loop_invariant:
  assumes "Close_loop cs fe p = Returns e p'" "P p"
    and cc: "\<And>q cn e q'. P q \<Longrightarrow> closeConn cn q = Returns e q' \<Longrightarrow> P q'"
  shows "P p'"
  using assms(1,2)
  by (induction cs arbitrary: fe p) (auto split: outcome.splits if_splits intro: cc)

subsection \<open>Every step keeps the idle bound\<close>

lemma checkMinIdleConns_idle_ok: "idle_ok p \<Longrightarrow> idle_ok (checkMinIdleConns p)"
  by (auto simp: idle_ok_def checkMinIdleConns_eq fill_def)

lemma popIdle_idle_ok: "popIdle p = Returns x p' \<Longrightarrow> idle_ok p \<Longrightarrow> idle_ok p'"
  by (auto simp: popIdle_def Let_def idle_ok_def checkMinIdleConns_eq fill_def
           split: if_splits option.splits)

lemma removeConn_idle_ok: "removeConn cn p = Returns x p' \<Longrightarrow> idle_ok p \<Longrightarrow> idle_ok p'"
  by (auto simp: removeConn_def Let_def idle_ok_def checkMinIdleConns_eq fill_def
           split: if_splits option.splits)

lemma isHealthyConn_idle_ok: "isHealthyConn cn p = Returns x p' \<Longrightarrow> idle_ok p \<Longrightarrow> idle_ok p'"
  by (auto simp: idle_ok_def dest!: isHealthyConn_frame)

lemma closeConn_idle_ok: "closeConn cn p = Returns x p' \<Longrightarrow> idle_ok p \<Longrightarrow> idle_ok p'"
  by (auto simp: idle_ok_def closeConn_def Conn_Close_def split: option.splits)

lemma freeTurn_idle_ok: "freeTurn p = Returns x p' \<Longrightarrow> idle_ok p \<Longrightarrow> idle_ok p'"
  by (auto simp: idle_ok_def freeTurn_def split: if_splits)

lemma getTurn_idle_ok: "getTurn p = Returns x p' \<Longrightarrow> idle_ok p \<Longrightarrow> idle_ok p'"
  by (auto simp: idle_ok_def getTurn_def split: if_splits)

lemma waitTurn_idle_ok: "waitTurn ctx ev p = Returns x p' \<Longrightarrow> idle_ok p \<Longrightarrow> idle_ok p'"
  by (auto simp: idle_ok_def waitTurn_def split: if_splits option.splits wait_event.splits)

lemma AsyncCloseConn_idle_ok:
  "AsyncCloseConn cn p = Returns x p' \<Longrightarrow> idle_ok p \<Longrightarrow> idle_ok p'"
  by (auto simp: AsyncCloseConn_def removeConnWithLock_def spawn_def idle_ok_def
           dest!: removeConn_idle_ok [unfolded idle_ok_def] split: outcome.splits)

lemma dialConn_idle_ok: "dialConn pl p = Returns x p' \<Longrightarrow> idle_ok p \<Longrightarrow> idle_ok p'"
  by (auto simp: dialConn_def idle_ok_def Let_def NewConn_alloc_def setLastDialError_def
           split: if_splits option.splits)

lemma newConn_idle_ok: "newConn pl p = Returns x p' \<Longrightarrow> idle_ok p \<Longrightarrow> idle_ok p'"
  by (auto simp: newConn_def Let_def idle_ok_def Conn_Close_def
           dest!: dialConn_idle_ok [unfolded idle_ok_def]
           split: if_splits option.splits outcome.splits prod.splits)

lemma Get_loop_idle_ok: "Get_loop i p = Returns r p' \<Longrightarrow> idle_ok p \<Longrightarrow> idle_ok p'"
  by (erule Get_loop_invariant)
     (fast intro: popIdle_idle_ok isHealthyConn_idle_ok AsyncCloseConn_idle_ok
      | simp add: idle_ok_def)+

lemma Get_idle_ok:
  assumes "Get ctx ev p = Returns r p'" "idle_ok p"
  shows "idle_ok p'"
proof (cases "closed p")
  case True
  with assms show ?thesis by (simp add: Get_def)
next
  case False
  with assms(1) obtain e p1 where w: "waitTurn ctx ev p = Returns e p1"
    by (auto simp: Get_def split: outcome.splits)
  have p1: "idle_ok p1" using waitTurn_idle_ok [OF w assms(2)] .
  show ?thesis
  proof (cases e)
    case (Some a)
    with assms False w p1 show ?thesis by (simp add: Get_def)
  next
    case None
    with assms(1) False w obtain l p2 where g: "Get_loop 0 p1 = Returns l p2"
      by (auto simp: Get_def split: outcome.splits)
    have p2: "idle_ok p2" using Get_loop_idle_ok [OF g p1] .
    show ?thesis
    proof (cases l)
      case (Some r')
      with assms(1) False w None g p2 show ?thesis by (simp add: Get_def)
    next
      case n: None
      let ?q = "p2\<lparr>stats := (stats p2)\<lparr>Misses := Misses (stats p2) + 1\<rparr>\<rparr>"
      from assms(1) False w None g n obtain x p3 where nc: "newConn True ?q = Returns x p3"
        by (auto simp: Get_def split: outcome.splits)
      from p2 have "idle_ok ?q" by (simp add: idle_ok_def)
      from newConn_idle_ok [OF nc this] have p3: "idle_ok p3" .
      from assms(1) False w None g n nc p3 show ?thesis
        by (auto simp: Get_def dest: freeTurn_idle_ok
                 split: outcome.splits option.splits if_splits prod.splits)
    qed
  qed
qed


lemma AsyncRemove_idle_ok:
  "AsyncRemove cn rs p = Returns x p' \<Longrightarrow> idle_ok p \<Longrightarrow> idle_ok p'"
  by (auto simp: AsyncRemove_def removeConnWithLock_def spawn_def idle_ok_def
           dest!: removeConn_idle_ok [unfolded idle_ok_def] freeTurn_idle_ok [unfolded idle_ok_def]
           split: outcome.splits)

lemma Remove_idle_ok:
  "Remove cn rs p = Returns x p' \<Longrightarrow> idle_ok p \<Longrightarrow> idle_ok p'"
  by (auto simp: Remove_def removeConnWithLock_def
           dest: removeConn_idle_ok freeTurn_idle_ok closeConn_idle_ok
           split: outcome.splits)

lemma CloseConn_idle_ok:
  "CloseConn cn p = Returns x p' \<Longrightarrow> idle_ok p \<Longrightarrow> idle_ok p'"
  by (auto simp: CloseConn_def removeConnWithLock_def idle_ok_def
           dest!: removeConn_idle_ok [unfolded idle_ok_def] closeConn_idle_ok [unfolded idle_ok_def]
           split: outcome.splits)

lemma Put_idle_ok:
  "Put cn p = Returns x p' \<Longrightarrow> idle_ok p \<Longrightarrow> idle_ok p'"
  by (auto simp: Put_def spawn_def idle_ok_def
           dest!: AsyncRemove_idle_ok [unfolded idle_ok_def]
             removeConn_idle_ok [unfolded idle_ok_def] freeTurn_idle_ok [unfolded idle_ok_def]
           split: outcome.splits option.splits if_splits)

lemma Filter_idle_ok:
  "Filter fn p = Returns x p' \<Longrightarrow> idle_ok p \<Longrightarrow> idle_ok p'"
  by (auto simp: Filter_def split: option.splits
           elim!: Filter_loop_invariant [where P = idle_ok] intro: closeConn_idle_ok)

lemma Close_idle_ok:
  assumes "Close p = Returns x p'" "idle_ok p"
  shows "idle_ok p'"
proof (cases "closed_flag p \<noteq> 0")
  case True
  with assms show ?thesis by (simp add: Close_def)
next
  case False
  with assms(1) obtain cs fe p2 where c: "Close_loop cs None (p\<lparr>closed_flag := 1\<rparr>) = Returns fe p2"
    and p': "p' = p2\<lparr>conns := None, poolSize := 0, idleConns := None, idleConnsLen := 0\<rparr>"
    by (auto simp: Close_def Let_def split: option.splits outcome.splits)
  from assms(2) have "idle_ok (p\<lparr>closed_flag := 1\<rparr>)" by (simp add: idle_ok_def)
  with c have "idle_ok p2"
    by (rule Close_loop_invariant) (rule closeConn_idle_ok)
  with p' show ?thesis by (simp add: idle_ok_def)
qed

lemma reapStaleConn_idle_ok:
  "reapStaleConn p = Returns x p' \<Longrightarrow> idle_ok p \<Longrightarrow> idle_ok p'"
  by (auto simp: reapStaleConn_def Let_def idle_ok_def
           dest!: isStaleConn_same removeConn_idle_ok [unfolded idle_ok_def]
           split: option.splits if_splits outcome.splits)

lemma ReapStaleConns_idle_ok:
  assumes "ReapStaleConns p = Returns x p'" "idle_ok p"
  shows "idle_ok p'"
proof -
  from assms(1) obtain n p1 where l: "ReapStaleConns_loop 0 p = Returns n p1"
    and p': "p' = p1\<lparr>stats := (stats p1)\<lparr>StaleConns := StaleConns (stats p1) + word_of_int n\<rparr>\<rparr>"
    by (auto simp: ReapStaleConns_def split: outcome.splits)
  from l assms(2) have "idle_ok p1"
    by (rule ReapStaleConns_loop_invariant)
       (fast intro: getTurn_idle_ok reapStaleConn_idle_ok freeTurn_idle_ok closeConn_idle_ok)+
  with p' show ?thesis by (simp add: idle_ok_def)
qed

lemma run_task_idle_ok:
  assumes "run_task t (p\<lparr>tasks := ts\<rparr>) = Returns u p'" "idle_ok p"
  shows "idle_ok p'"
proof -
  from assms(2) have q: "idle_ok (p\<lparr>tasks := ts\<rparr>)" by (simp add: idle_ok_def)
  show ?thesis
  proof (cases t)
    case AddIdleTask
    with assms(1) q show ?thesis
      by (auto simp: run_task_def addIdleConn_begin_def dialConn_begin_def idle_ok_def
               split: if_splits)
  next
    case (AddIdleDialing r)
    with assms(1) q show ?thesis
      by (auto simp: run_task_def addIdleConn_dialed_def dialConn_end_def addIdleConn_attach_def
               NewConn_alloc_def Conn_Close_def setLastDialError_def Let_def idle_ok_def
               split: option.splits if_splits)
  next
    case (AddIdleReturned e)
    with assms(1) q show ?thesis
      by (auto simp: run_task_def addIdleConn_returned_def addIdleConn_attach_def
               Conn_Close_def idle_ok_def
               split: option.splits if_splits)
  next
    case (CloseTask cn)
    with assms(1) q show ?thesis
      by (auto simp: run_task_def dest: closeConn_idle_ok split: outcome.splits)
  next
    case ProbeTask
    with assms(1) q show ?thesis
      by (auto simp: run_task_def tryDial_round_def spawn_def idle_ok_def setLastDialError_def
               split: option.splits if_splits)
  qed
qed

lemma exec_idle_ok:
  assumes "exec x p = Returns u p'" "idle_ok p"
  shows "idle_ok p'"
proof (cases x)
  case (Task_op k)
  with assms show ?thesis by (auto dest: run_task_idle_ok split: if_splits)
qed (use assms in \<open>auto simp: discard_def NewConn_def Len_def IdleLen_def Stats_of_def
      reaper_tick_def
      dest: Get_idle_ok Put_idle_ok Remove_idle_ok newConn_idle_ok CloseConn_idle_ok
        Filter_idle_ok Close_idle_ok ReapStaleConns_idle_ok
      split: outcome.splits option.splits if_splits\<close>,
     (simp_all add: idle_ok_def world_conn_def split: option.splits))

lemma run_idle_ok:
  "run xs p = Returns u p' \<Longrightarrow> idle_ok p \<Longrightarrow> idle_ok p'"
  by (induction xs arbitrary: p) (auto dest: exec_idle_ok split: outcome.splits)

lemma NewConnPool_idle_ok:
  assumes "0 < MaxIdleConns opt" "MinIdleConns opt \<le> MaxIdleConns opt"
    "NewConnPool opt = Returns u p"
  shows "idle_ok p \<and> cfg p = opt"
  using assms
  by (auto simp: NewConnPool_def idle_ok_def checkMinIdleConns_eq fill_def fresh_pool_def
           split: if_splits)

subsection \<open>Hits and misses\<close>

lemma Get_loop_served:
  assumes "Get_loop i p = Returns r p'" "\<not> closed p"
  shows "\<not> closed p' \<and> Misses (stats p') = Misses (stats p) \<and>
     (case r of None \<Rightarrow> Hits (stats p') = Hits (stats p)
      | Some (cn, e) \<Rightarrow> e = None \<and> Hits (stats p') = Hits (stats p) + 1)"
  using assms
proof (induction i p rule: Get_loop.induct)
  case (1 i p)
  from "1.prems"(1) obtain x p1 where po: "popIdle p = Returns x p1"
    by (subst (asm) Get_loop.simps) (auto split: outcome.splits)
  obtain cn e where x: "x = (cn, e)" by (cases x)
  from po x "1.prems"(2) have e: "e = None"
    by (auto simp: popIdle_def Let_def closed_def split: if_splits option.splits)
  from popIdle_frame [OF po] "1.prems"(2)
  have f1: "\<not> closed p1" "stats p1 = stats p" by (simp_all add: closed_def)
  show ?case
  proof (cases "cn = 0")
    case True
    show ?thesis
    proof (cases "3 \<le> i + 1")
      case t: True
      with "1.prems"(1) po x e True have "r = None" "p' = p1"
        by (subst (asm) Get_loop.simps, simp)+
      with f1 show ?thesis by simp
    next
      case f: False
      with "1.prems"(1) po x e True have g: "Get_loop (i + 1) p1 = Returns r p'"
        by (subst (asm) Get_loop.simps) simp
      from "1.IH"(1) [OF po x [symmetric] e True f g f1(1)] f1(2) show ?thesis
        by (auto split: option.splits)
    qed
  next
    case False
    with "1.prems"(1) po x e obtain ok p2 where h: "isHealthyConn cn p1 = Returns ok p2"
      by (subst (asm) Get_loop.simps) (auto split: outcome.splits)
    from isHealthyConn_frame [OF h] f1
    have f2: "\<not> closed p2" "stats p2 = stats p" by (simp_all add: closed_def)
    show ?thesis
    proof (cases ok)
      case True
      with "1.prems"(1) po x e False h
      have "r = Some (cn, None)"
        "p' = p2\<lparr>stats := (stats p2)\<lparr>Hits := Hits (stats p2) + 1\<rparr>\<rparr>"
        by (subst (asm) Get_loop.simps, simp)+
      with f2 show ?thesis by (simp add: closed_def)
    next
      case nok: False
      with "1.prems"(1) po x e False h obtain u p3
        where a: "AsyncCloseConn cn p2 = Returns u p3"
        by (subst (asm) Get_loop.simps) (auto split: outcome.splits)
      from "1.prems"(1) po x e False h nok a have g: "Get_loop i p3 = Returns r p'"
        by (subst (asm) Get_loop.simps) simp
      from AsyncCloseConn_frame [OF a] f2
      have f3: "\<not> closed p3" "Hits (stats p3) = Hits (stats p)"
        "Misses (stats p3) = Misses (stats p)"
        by (simp_all add: closed_def)
      from "1.IH"(2) [OF po x [symmetric] e False h nok a g f3(1)] f3(2,3)
      show ?thesis by (auto split: option.splits)
    qed
  qed
qed

lemma dialConn_stats: "dialConn pl p = Returns x p' \<Longrightarrow> stats p' = stats p"
  by (auto simp: dialConn_def Let_def NewConn_alloc_def setLastDialError_def
           split: if_splits option.splits)

lemma newConn_stats: "newConn pl p = Returns x p' \<Longrightarrow> stats p' = stats p"
  by (auto simp: newConn_def Let_def Conn_Close_def dest!: dialConn_stats
           split: if_splits option.splits outcome.splits prod.splits)

lemma waitTurn_served:
  "waitTurn ctx ev p = Returns x p' \<Longrightarrow>
     Hits (stats p') = Hits (stats p) \<and> Misses (stats p') = Misses (stats p) \<and>
     closed_flag p' = closed_flag p"
  by (auto simp: waitTurn_def split: if_splits option.splits wait_event.splits)

lemma Get_served:
  assumes "Get ctx ev p = Returns (cn, e) p'"
  shows "served p' =
     served p + (if e = None then 1 else 0) + (if Get_missed_failed ctx ev p then 1 else 0)"
    and "e = None \<longleftrightarrow> Get_ok ctx ev p"
    and "Get_ok ctx ev p \<longrightarrow> \<not> Get_missed_failed ctx ev p"
proof -
  have "served p' =
     served p + (if e = None then 1 else 0) + (if Get_missed_failed ctx ev p then 1 else 0) \<and>
     (Get_ok ctx ev p \<longrightarrow> \<not> Get_missed_failed ctx ev p)"
  proof (cases "closed p")
    case True
    with assms show ?thesis by (auto simp: Get_def Get_missed_failed_def Get_ok_def)
  next
    case False
    with assms obtain e1 p1 where w: "waitTurn ctx ev p = Returns e1 p1"
      by (auto simp: Get_def split: outcome.splits)
    note wf = waitTurn_served [OF w]
    show ?thesis
    proof (cases e1)
      case (Some a)
      with assms False w wf show ?thesis
        by (auto simp: Get_def Get_missed_failed_def Get_ok_def served_def)
    next
      case None
      with assms False w obtain l p2 where g: "Get_loop 0 p1 = Returns l p2"
        by (auto simp: Get_def split: outcome.splits)
      from False wf have c1: "\<not> closed p1" by (simp add: closed_def)
      note lf = Get_loop_served [OF g c1]
      show ?thesis
      proof (cases l)
        case (Some r')
        with assms False w None g lf wf show ?thesis
          by (auto simp: Get_def Get_missed_failed_def Get_ok_def served_def)
      next
        case n: None
        let ?q = "p2\<lparr>stats := (stats p2)\<lparr>Misses := Misses (stats p2) + 1\<rparr>\<rparr>"
        from assms False w None g n obtain x p3 where nc: "newConn True ?q = Returns x p3"
          by (auto simp: Get_def split: outcome.splits)
        from newConn_stats [OF nc] have s3: "stats p3 = stats ?q" .
        obtain c3 e3 where x: "x = (c3, e3)" by (cases x)
        show ?thesis
        proof (cases e3)
          case None3: None
          with assms False w None g n nc x s3 lf wf show ?thesis
            by (auto simp: Get_def Get_missed_failed_def Get_ok_def served_def)
        next
          case (Some a)
          with assms False w None g n nc x obtain u where "freeTurn p3 = Returns u p'"
            and "e = Some a"
            by (auto simp: Get_def split: outcome.splits)
          then have "stats p' = stats p3" "e \<noteq> None"
            by (auto simp: freeTurn_def split: if_splits)
          with assms False w None g n nc x s3 lf wf Some show ?thesis
            by (auto simp: Get_def Get_missed_failed_def Get_ok_def served_def)
        qed
      qed
    qed
  qed
  then show "served p' =
     served p + (if e = None then 1 else 0) + (if Get_missed_failed ctx ev p then 1 else 0)"
    and "Get_ok ctx ev p \<longrightarrow> \<not> Get_missed_failed ctx ev p"
    by blast+
  from assms show "e = None \<longleftrightarrow> Get_ok ctx ev p"
    by (auto simp: Get_ok_def split: option.splits)
qed


lemma removeConn_served: "removeConn cn p = Returns x p' \<Longrightarrow> served p' = served p"
  by (auto simp: served_def dest!: removeConn_frame)

lemma closeConn_served: "closeConn cn p = Returns x p' \<Longrightarrow> served p' = served p"
  by (auto simp: served_def closeConn_def Conn_Close_def split: option.splits)

lemma freeTurn_served: "freeTurn p = Returns x p' \<Longrightarrow> served p' = served p"
  by (auto simp: served_def freeTurn_def split: if_splits)

lemma getTurn_served: "getTurn p = Returns x p' \<Longrightarrow> served p' = served p"
  by (auto simp: served_def getTurn_def split: if_splits)

lemma AsyncRemove_served: "AsyncRemove cn rs p = Returns x p' \<Longrightarrow> served p' = served p"
  by (auto simp: AsyncRemove_def removeConnWithLock_def spawn_def served_def freeTurn_def
           dest!: removeConn_frame split: outcome.splits if_splits)

lemma Remove_served: "Remove cn rs p = Returns x p' \<Longrightarrow> served p' = served p"
  by (auto simp: Remove_def removeConnWithLock_def
           dest!: removeConn_served freeTurn_served closeConn_served split: outcome.splits)

lemma CloseConn_served: "CloseConn cn p = Returns x p' \<Longrightarrow> served p' = served p"
  by (auto simp: CloseConn_def removeConnWithLock_def closeConn_def Conn_Close_def served_def
           dest!: removeConn_frame split: outcome.splits option.splits)

lemma Put_served: "Put cn p = Returns x p' \<Longrightarrow> served p' = served p"
  by (auto simp: Put_def spawn_def served_def freeTurn_def
           dest!: AsyncRemove_served [unfolded served_def] removeConn_frame
           split: outcome.splits option.splits if_splits)

lemma Filter_served:
  assumes "Filter fn p = Returns x p'"
  shows "served p' = served p"
proof -
  from assms obtain cs where "Filter_loop fn cs None p = Returns x p'"
    by (auto simp: Filter_def split: option.splits)
  then show ?thesis
    by (rule Filter_loop_invariant [where P = "\<lambda>q. served q = served p"])
       (auto dest: closeConn_served)
qed

lemma Close_served:
  assumes "Close p = Returns x p'"
  shows "served p' = served p"
proof (cases "closed_flag p \<noteq> 0")
  case True
  with assms show ?thesis by (simp add: Close_def)
next
  case False
  with assms obtain cs fe p2 where c: "Close_loop cs None (p\<lparr>closed_flag := 1\<rparr>) = Returns fe p2"
    and p': "p' = p2\<lparr>conns := None, poolSize := 0, idleConns := None, idleConnsLen := 0\<rparr>"
    by (auto simp: Close_def Let_def split: option.splits outcome.splits)
  from c have "served p2 = served p"
    by (rule Close_loop_invariant [where P = "\<lambda>q. served q = served p"])
       (auto dest: closeConn_served simp: served_def)
  with p' show ?thesis by (simp add: served_def)
qed

lemma reapStaleConn_served: "reapStaleConn p = Returns x p' \<Longrightarrow> served p' = served p"
  by (auto simp: reapStaleConn_def Let_def served_def
           dest!: isStaleConn_same removeConn_frame
           split: option.splits if_splits outcome.splits)

lemma ReapStaleConns_served:
  assumes "ReapStaleConns p = Returns x p'"
  shows "served p' = served p"
proof -
  from assms obtain n p1 where l: "ReapStaleConns_loop 0 p = Returns n p1"
    and p': "p' = p1\<lparr>stats := (stats p1)\<lparr>StaleConns := StaleConns (stats p1) + word_of_int n\<rparr>\<rparr>"
    by (auto simp: ReapStaleConns_def split: outcome.splits)
  from l have "served p1 = served p"
    by (rule ReapStaleConns_loop_invariant [where P = "\<lambda>q. served q = served p"])
       (auto dest: getTurn_served reapStaleConn_served freeTurn_served closeConn_served)
  with p' show ?thesis by (simp add: served_def)
qed

lemma run_task_served:
  assumes "run_task t (p\<lparr>tasks := ts\<rparr>) = Returns u p'"
  shows "served p' = served p"
proof (cases t)
  case AddIdleTask
  with assms show ?thesis
    by (auto simp: run_task_def addIdleConn_begin_def dialConn_begin_def served_def
             split: if_splits)
next
  case (AddIdleDialing r)
  with assms show ?thesis
    by (auto simp: run_task_def addIdleConn_dialed_def dialConn_end_def addIdleConn_attach_def
             NewConn_alloc_def Conn_Close_def setLastDialError_def Let_def served_def
             split: option.splits if_splits)
next
  case (AddIdleReturned e)
  with assms show ?thesis
    by (auto simp: run_task_def addIdleConn_returned_def addIdleConn_attach_def
             Conn_Close_def served_def
             split: option.splits if_splits)
next
  case (CloseTask cn)
  with assms show ?thesis
    by (auto simp: run_task_def served_def dest!: closeConn_served [unfolded served_def]
             split: outcome.splits)
next
  case ProbeTask
  with assms show ?thesis
    by (auto simp: run_task_def tryDial_round_def spawn_def served_def setLastDialError_def
             split: option.splits if_splits)
qed

lemma newConn_served: "newConn pl p = Returns x p' \<Longrightarrow> served p' = served p"
  by (simp add: served_def newConn_stats)

lemma exec_served:
  assumes "exec x p = Returns u p'"
  shows "served p' = served p +
           (case x of
              Get_op ctx ev \<Rightarrow>
                (if Get_ok ctx ev p then 1 else 0) +
                (if Get_missed_failed ctx ev p then 1 else 0)
            | _ \<Rightarrow> 0)"
proof (cases x)
  case (Get_op ctx ev)
  with assms obtain cn e where g: "Get ctx ev p = Returns (cn, e) p'"
    by (auto simp: discard_def split: outcome.splits)
  from Get_served [OF g] Get_op show ?thesis by simp
next
  case (Task_op k)
  with assms show ?thesis by (auto dest: run_task_served split: if_splits)
qed (use assms in \<open>auto simp: discard_def NewConn_def Len_def IdleLen_def Stats_of_def
      reaper_tick_def
      dest: Put_served Remove_served newConn_served CloseConn_served
        Filter_served Close_served ReapStaleConns_served
      split: outcome.splits option.splits if_splits\<close>,
     (simp_all add: served_def world_conn_def split: option.splits))

subsection \<open>Every polite step keeps the registry in order\<close>

lemma safe_cong:
  assumes "cfg p' = cfg p" "dialErrorsNum p' = dialErrorsNum p"
    "lastDialError p' = lastDialError p" "nextConn p' = nextConn p" "acct p' = acct p"
    "conns p' = conns p" "idleConns p' = idleConns p" "closed_flag p' = closed_flag p"
    "(AddIdleReturned None \<in> set (tasks p')) = (AddIdleReturned None \<in> set (tasks p))"
  shows "safe H p' = safe H p"
  using assms by (simp add: safe_def cong: option.case_cong)

lemma acct_simps [simp]:
  "acct (p\<lparr>queue := q\<rparr>) = acct p"
  "acct (p\<lparr>stats := s\<rparr>) = acct p"
  "acct (p\<lparr>heap := h\<rparr>) = acct p"
  "acct (p\<lparr>clock := k\<rparr>) = acct p"
  "acct (p\<lparr>poolSize := n\<rparr>) = acct p"
  "acct (p\<lparr>idleConnsLen := n\<rparr>) = acct p"
  "acct (p\<lparr>popCalls := m\<rparr>) = acct p"
  "acct (p\<lparr>dialCalls := m\<rparr>) = acct p"
  "acct (p\<lparr>probeCloses := m\<rparr>) = acct p"
  "acct (p\<lparr>conns := cs\<rparr>) = acct p"
  "acct (p\<lparr>idleConns := ics\<rparr>) = acct p"
  "acct (p\<lparr>nextConn := m\<rparr>) = acct p"
  "acct (p\<lparr>closed_flag := w\<rparr>) = acct p"
  "acct (p\<lparr>dialErrorsNum := w\<rparr>) = acct p"
  "acct (p\<lparr>lastDialError := le\<rparr>) = acct p"
  by (simp_all add: acct_def pending_def fun_eq_iff)

lemma acct_tasks_append:
  "acct (p\<lparr>tasks := tasks p @ ts\<rparr>) c = acct p c + count_list ts (CloseTask c)"
  by (simp add: acct_def pending_def)

lemma acct_spawn:
  "acct (spawn t p) c = acct p c + (if t = CloseTask c then 1 else 0)"
  by (simp add: spawn_def acct_tasks_append)

lemma acct_bump: "acct (bump cn p) c = acct p c + (if c = cn then 1 else 0)"
  by (simp add: bump_def acct_def pending_def)

lemma acct_checkMinIdleConns [simp]: "acct (checkMinIdleConns p) = acct p"
  by (simp add: checkMinIdleConns_eq fun_eq_iff acct_def pending_def)

lemma safe_simps [simp]:
  "safe H (p\<lparr>queue := q\<rparr>) = safe H p"
  "safe H (p\<lparr>stats := s\<rparr>) = safe H p"
  "safe H (p\<lparr>heap := h\<rparr>) = safe H p"
  "safe H (p\<lparr>clock := k\<rparr>) = safe H p"
  "safe H (p\<lparr>poolSize := n\<rparr>) = safe H p"
  "safe H (p\<lparr>idleConnsLen := n\<rparr>) = safe H p"
  "safe H (p\<lparr>popCalls := m\<rparr>) = safe H p"
  "safe H (p\<lparr>dialCalls := m\<rparr>) = safe H p"
  "safe H (p\<lparr>probeCloses := m\<rparr>) = safe H p"
  by (rule safe_cong; simp)+

lemma safe_checkMinIdleConns [simp]: "safe H (checkMinIdleConns p) = safe H p"
  by (rule safe_cong) (simp_all, simp_all add: checkMinIdleConns_eq)

lemma acct_spawn_other [simp]:
  "acct (spawn AddIdleTask p) = acct p" "acct (spawn ProbeTask p) = acct p"
  by (simp_all add: fun_eq_iff acct_spawn)

lemma spawn_fields [simp]:
  "cfg (spawn t p) = cfg p" "dialErrorsNum (spawn t p) = dialErrorsNum p"
  "lastDialError (spawn t p) = lastDialError p" "nextConn (spawn t p) = nextConn p"
  "conns (spawn t p) = conns p" "idleConns (spawn t p) = idleConns p"
  "closed_flag (spawn t p) = closed_flag p" "closeCalls (spawn t p) = closeCalls p"
  "heap (spawn t p) = heap p" "queue (spawn t p) = queue p" "stats (spawn t p) = stats p"
  "tasks (spawn t p) = tasks p @ [t]"
  by (simp_all add: spawn_def)

lemma bump_fields [simp]:
  "cfg (bump c p) = cfg p" "dialErrorsNum (bump c p) = dialErrorsNum p"
  "lastDialError (bump c p) = lastDialError p" "nextConn (bump c p) = nextConn p"
  "conns (bump c p) = conns p" "idleConns (bump c p) = idleConns p"
  "closed_flag (bump c p) = closed_flag p" "tasks (bump c p) = tasks p"
  "heap (bump c p) = heap p" "queue (bump c p) = queue p" "stats (bump c p) = stats p"
  by (simp_all add: bump_def)

lemma safe_spawn_other [simp]:
  "safe H (spawn AddIdleTask p) = safe H p" "safe H (spawn ProbeTask p) = safe H p"
  by (rule safe_cong, simp_all)+

lemma safe_spawn_close: "safe H (spawn (CloseTask cn) p) = safe H (bump cn p)"
  by (rule safe_cong) (auto simp: fun_eq_iff acct_spawn acct_bump)

lemma closeConn_bump: "closeConn cn p = Returns e p' \<Longrightarrow> p' = bump cn p"
  by (auto simp: closeConn_def Conn_Close_def bump_def split: option.splits)


lemma checkMinIdleConns_fields [simp]:
  "cfg (checkMinIdleConns p) = cfg p" "dialErrorsNum (checkMinIdleConns p) = dialErrorsNum p"
  "lastDialError (checkMinIdleConns p) = lastDialError p"
  "nextConn (checkMinIdleConns p) = nextConn p" "conns (checkMinIdleConns p) = conns p"
  "idleConns (checkMinIdleConns p) = idleConns p"
  "closed_flag (checkMinIdleConns p) = closed_flag p"
  "closeCalls (checkMinIdleConns p) = closeCalls p" "heap (checkMinIdleConns p) = heap p"
  "queue (checkMinIdleConns p) = queue p" "stats (checkMinIdleConns p) = stats p"
  "(AddIdleReturned e \<in> set (tasks (checkMinIdleConns p))) = (AddIdleReturned e \<in> set (tasks p))"
  by (auto simp: checkMinIdleConns_eq)

lemma safe_bump_checkMinIdleConns [simp]:
  "safe H (bump cn (checkMinIdleConns p)) = safe H (bump cn p)"
  by (rule safe_cong) (simp_all add: fun_eq_iff acct_bump)

lemma safe_bump_simps [simp]:
  "safe H (bump cn (p\<lparr>queue := q\<rparr>)) = safe H (bump cn p)"
  "safe H (bump cn (p\<lparr>stats := s\<rparr>)) = safe H (bump cn p)"
  "safe H (bump cn (p\<lparr>poolSize := n\<rparr>)) = safe H (bump cn p)"
  by (rule safe_cong, simp_all add: fun_eq_iff acct_bump)+

lemma safe_held:
  assumes "safe H p" "cn \<in> H" "conns p \<noteq> None \<or> idleConns p \<noteq> None"
  shows "\<exists>cs ics. conns p = Some cs \<and> idleConns p = Some ics \<and> cn \<in> set cs \<and> cn \<notin> set ics"
  using assms by (auto simp: safe_def split: option.splits)

lemma removeConn_open: "removeConn cn p = Returns u p' \<Longrightarrow> conns p \<noteq> None"
  by (auto simp: removeConn_def split: option.splits)

lemma Put_open: "Put cn p = Returns u p' \<Longrightarrow> conns p \<noteq> None \<or> idleConns p \<noteq> None"
  by (auto simp: Put_def AsyncRemove_def removeConnWithLock_def removeConn_def
           split: option.splits if_splits outcome.splits)

lemma detach_safe:
  assumes "safe H p" "conns p = Some cs" "cn \<in> set cs" "idleConns p = Some ics"
    "cn \<notin> set ics"
  shows "safe (H - {cn}) (bump cn (p\<lparr>conns := Some (remove1 cn cs)\<rparr>))"
  using assms
  by (auto simp: safe_def acct_bump split: option.splits)

lemma removeConn_safe:
  assumes "safe H p" "removeConn cn p = Returns u p'" "conns p = Some cs" "cn \<in> set cs"
    "idleConns p = Some ics" "cn \<notin> set ics"
  shows "safe (H - {cn}) (bump cn p')"
  using assms(2-4) detach_safe [OF assms(1,3-6)]
  by (auto simp: removeConn_def Let_def split: option.splits if_splits)

lemma Remove_safe:
  assumes "safe H p" "cn \<in> H" "Remove cn rs p = Returns u p'"
  shows "safe (H - {cn}) p'"
proof -
  from assms(3) obtain p1 p2 e where r: "removeConn cn p = Returns () p1"
    and f: "freeTurn p1 = Returns () p2" and cl: "closeConn cn p2 = Returns e p'"
    by (auto simp: Remove_def removeConnWithLock_def split: outcome.splits)
  from safe_held [OF assms(1,2)] removeConn_open [OF r]
  obtain cs ics where c: "conns p = Some cs" "cn \<in> set cs"
    "idleConns p = Some ics" "cn \<notin> set ics" by blast
  from removeConn_safe [OF assms(1) r c] f have "safe (H - {cn}) (bump cn p2)"
    by (auto simp: freeTurn_def split: if_splits)
  with closeConn_bump [OF cl] show ?thesis by simp
qed

lemma AsyncRemove_safe:
  assumes "safe H p" "cn \<in> H" "AsyncRemove cn rs p = Returns u p'"
  shows "safe (H - {cn}) p'"
proof -
  from assms(3) obtain p1 p2 where r: "removeConn cn p = Returns () p1"
    and f: "freeTurn p1 = Returns () p2" and p': "p' = spawn (CloseTask cn) p2"
    by (auto simp: AsyncRemove_def removeConnWithLock_def split: outcome.splits)
  from safe_held [OF assms(1,2)] removeConn_open [OF r]
  obtain cs ics where c: "conns p = Some cs" "cn \<in> set cs"
    "idleConns p = Some ics" "cn \<notin> set ics" by blast
  from removeConn_safe [OF assms(1) r c] f have "safe (H - {cn}) (bump cn p2)"
    by (auto simp: freeTurn_def split: if_splits)
  with p' show ?thesis by (simp add: safe_spawn_close)
qed

lemma CloseConn_safe:
  assumes "safe H p" "cn \<in> H" "CloseConn cn p = Returns e p'"
  shows "safe (H - {cn}) p'"
proof -
  from assms(3) obtain p1 where r: "removeConn cn p = Returns () p1"
    and cl: "closeConn cn (p1\<lparr>stats := (stats p1)\<lparr>StaleConns := StaleConns (stats p1) + 1\<rparr>\<rparr>) =
       Returns e p'"
    by (auto simp: CloseConn_def removeConnWithLock_def split: outcome.splits)
  from safe_held [OF assms(1,2)] removeConn_open [OF r]
  obtain cs ics where c: "conns p = Some cs" "cn \<in> set cs"
    "idleConns p = Some ics" "cn \<notin> set ics" by blast
  from removeConn_safe [OF assms(1) r c] closeConn_bump [OF cl] show ?thesis by simp
qed

lemma AsyncCloseConn_safe:
  assumes "safe H p" "cn \<in> H" "AsyncCloseConn cn p = Returns u p'"
  shows "safe (H - {cn}) p'"
proof -
  from assms(3) obtain p1 where r: "removeConn cn p = Returns () p1"
    and p': "p' = spawn (CloseTask cn)
       (p1\<lparr>stats := (stats p1)\<lparr>StaleConns := StaleConns (stats p1) + 1\<rparr>\<rparr>)"
    by (auto simp: AsyncCloseConn_def removeConnWithLock_def split: outcome.splits)
  from safe_held [OF assms(1,2)] removeConn_open [OF r]
  obtain cs ics where c: "conns p = Some cs" "cn \<in> set cs"
    "idleConns p = Some ics" "cn \<notin> set ics" by blast
  from removeConn_safe [OF assms(1) r c] p' show ?thesis by (simp add: safe_spawn_close)
qed

lemma Put_safe:
  assumes "safe H p" "cn \<in> H" "Put cn p = Returns u p'"
  shows "safe (H - {cn}) p'"
proof -
  from safe_held [OF assms(1,2) Put_open [OF assms(3)]]
  obtain cs ics where c: "conns p = Some cs" "cn \<in> set cs"
    "idleConns p = Some ics" "cn \<notin> set ics" by blast
  from assms(3) obtain c0 where h: "heap p cn = Some c0"
    by (auto simp: Put_def split: option.splits)
  consider (evict) rs where "AsyncRemove cn rs p = Returns u p'"
    | (idle) "freeTurn (p\<lparr>idleConns := Some (ics @ [cn]), idleConnsLen := idleConnsLen p + 1\<rparr>) =
        Returns () p'"
    | (over) p1 p2 where "removeConn cn p = Returns () p1" "freeTurn p1 = Returns () p2"
        "p' = spawn (CloseTask cn) p2"
    using assms(3) h c
    by (auto simp: Put_def split: if_splits outcome.splits)
  then show ?thesis
  proof cases
    case evict
    then show ?thesis by (rule AsyncRemove_safe [OF assms(1,2)])
  next
    case idle
    have "safe (H - {cn}) (p\<lparr>idleConns := Some (ics @ [cn])\<rparr>)"
      using assms(1,2) c by (auto simp: safe_def split: option.splits)
    with idle show ?thesis by (auto simp: freeTurn_def split: if_splits)
  next
    case over
    from removeConn_safe [OF assms(1) over(1) c] over(2)
    have "safe (H - {cn}) (bump cn p2)" by (auto simp: freeTurn_def split: if_splits)
    with over(3) show ?thesis by (simp add: safe_spawn_close)
  qed
qed


lemma popIdle_safe:
  assumes "safe H p" "popIdle p = Returns (cn, e) p'"
  shows "if cn \<noteq> 0 \<and> e = None then safe (insert cn H) p' \<and> cn \<notin> H else safe H p'"
proof -
  let ?q = "p\<lparr>popCalls := popCalls p + 1\<rparr>"
  have q: "safe H ?q" using assms(1) by simp
  show ?thesis
  proof (cases "closed p")
    case True
    with assms(2) q show ?thesis by (auto simp: popIdle_def Let_def closed_def)
  next
    case False
    with assms(2) obtain ics where i: "idleConns p = Some ics"
      by (auto simp: popIdle_def Let_def closed_def split: option.splits)
    show ?thesis
    proof (cases "ics = []")
      case True
      with assms(2) False i q show ?thesis by (auto simp: popIdle_def Let_def closed_def)
    next
      case ne: False
      define rest where "rest = (if PoolFIFO (cfg p) then tl ics else butlast ics)"
      from assms(2) False i ne have cn: "cn = (if PoolFIFO (cfg p) then hd ics else last ics)"
        and p': "p' = checkMinIdleConns
             (?q\<lparr>idleConns := Some rest, idleConnsLen := idleConnsLen ?q - 1\<rparr>)"
        and e: "e = None"
        by (auto simp: popIdle_def Let_def closed_def rest_def)
      from assms(1) i obtain cs where c: "conns p = Some cs" "distinct ics" "set ics \<subseteq> set cs"
        "H \<inter> set ics = {}"
        by (auto simp: safe_def split: option.splits)
      have mem: "cn \<in> set ics" using cn ne by simp
      have "ics = cn # rest \<or> ics = rest @ [cn]"
        using cn ne by (cases "PoolFIFO (cfg p)") (auto simp: rest_def)
      with c(2) have r: "distinct rest" "cn \<notin> set rest" "set rest \<subseteq> set ics" by auto
      have "safe (insert cn H) p' = safe (insert cn H) (p\<lparr>idleConns := Some rest\<rparr>)"
        unfolding p' by (rule safe_cong) simp_all
      moreover from assms(1) c i mem r have "safe (insert cn H) (p\<lparr>idleConns := Some rest\<rparr>)"
        by (auto simp: safe_def split: option.splits)
      moreover from assms(1) c mem have "cn \<noteq> 0" by (auto simp: safe_def)
      moreover from c(4) mem have "cn \<notin> H" by auto
      ultimately show ?thesis using p' e by simp
    qed
  qed
qed

lemma isHealthyConn_safe:
  "isHealthyConn cn p = Returns ok p' \<Longrightarrow> safe H p' = safe H p"
  by (auto simp: isHealthyConn_def Let_def split: option.splits if_splits)

lemma Get_loop_safe:
  assumes "Get_loop i p = Returns r p'" "safe H p"
  shows "case r of Some (cn, None) \<Rightarrow> safe (insert cn H) p' | _ \<Rightarrow> safe H p'"
  using assms
proof (induction i p rule: Get_loop.induct)
  case (1 i p)
  from "1.prems"(1) obtain x p1 where po: "popIdle p = Returns x p1"
    by (subst (asm) Get_loop.simps) (auto split: outcome.splits)
  obtain cn e where x: "x = (cn, e)" by (cases x)
  note ps = popIdle_safe [OF "1.prems"(2) po [unfolded x]]
  show ?case
  proof (cases e)
    case (Some a)
    with "1.prems"(1) po x have "r = Some (0, Some a)" "p' = p1"
      by (subst (asm) Get_loop.simps, simp)+
    with ps Some show ?thesis by simp
  next
    case None
    show ?thesis
    proof (cases "cn = 0")
      case True
      with ps have s1: "safe H p1" by simp
      show ?thesis
      proof (cases "3 \<le> i + 1")
        case t: True
        with "1.prems"(1) po x None True have "r = None" "p' = p1"
          by (subst (asm) Get_loop.simps, simp)+
        with s1 show ?thesis by simp
      next
        case f: False
        with "1.prems"(1) po x None True have "Get_loop (i + 1) p1 = Returns r p'"
          by (subst (asm) Get_loop.simps) simp
        from "1.IH"(1) [OF po x [symmetric] None True f this s1] show ?thesis .
      qed
    next
      case False
      with ps None have s1: "safe (insert cn H) p1" and nH: "cn \<notin> H" by simp_all
      from "1.prems"(1) po x None False obtain ok p2
        where h: "isHealthyConn cn p1 = Returns ok p2"
        by (subst (asm) Get_loop.simps) (auto split: outcome.splits)
      from isHealthyConn_safe [OF h] s1 have s2: "safe (insert cn H) p2" by simp
      show ?thesis
      proof (cases ok)
        case True
        with "1.prems"(1) po x None False h
        have "r = Some (cn, None)"
          "p' = p2\<lparr>stats := (stats p2)\<lparr>Hits := Hits (stats p2) + 1\<rparr>\<rparr>"
          by (subst (asm) Get_loop.simps, simp)+
        with s2 show ?thesis by simp
      next
        case nok: False
        with "1.prems"(1) po x None False h obtain u p3
          where a: "AsyncCloseConn cn p2 = Returns u p3"
          by (subst (asm) Get_loop.simps) (auto split: outcome.splits)
        from "1.prems"(1) po x None False h nok a have g: "Get_loop i p3 = Returns r p'"
          by (subst (asm) Get_loop.simps) simp
        from AsyncCloseConn_safe [OF s2 _ a] nH have s3: "safe H p3" by simp
        from "1.IH"(2) [OF po x [symmetric] None False h nok a g s3] show ?thesis .
      qed
    qed
  qed
qed

lemma dialConn_safe:
  assumes "safe H p" "dialConn pl p = Returns (cn, e) p'"
  shows "if e = None
         then cn = nextConn p \<and> p' = p\<lparr>dialCalls := dialCalls p', heap := heap p',
                                          nextConn := nextConn p + 1\<rparr>
         else safe H p'"
proof (cases "closed p \<or> word_of_int (PoolSize (cfg p)) \<le> dialErrorsNum p")
  case True
  with assms show ?thesis
    by (auto simp: dialConn_def getLastDialError_def safe_def split: if_splits)
next
  case False
  show ?thesis
  proof (cases "Dialer (cfg p) (dialCalls p)")
    case None
    with assms(2) False show ?thesis
      by (auto simp: dialConn_def NewConn_alloc_def)
  next
    case (Some a)
    let ?q = "p\<lparr>dialCalls := dialCalls p + 1, lastDialError := Some a,
                 dialErrorsNum := dialErrorsNum p + 1\<rparr>"
    have "safe H ?q"
      using assms(1) by (auto simp: safe_def split: option.splits)
    moreover from assms(2) False Some have "e = Some a"
      "p' = ?q \<or> p' = spawn ProbeTask ?q"
      by (auto simp: dialConn_def Let_def setLastDialError_def spawn_def split: if_splits)
    ultimately show ?thesis by auto
  qed
qed


lemma attach_safe:
  assumes "safe H p" "conns p = Some cs"
  shows "safe (insert (nextConn p) H)
           (p\<lparr>nextConn := nextConn p + 1, conns := Some (cs @ [nextConn p])\<rparr>)"
  using assms by (auto simp: safe_def split: option.splits)

lemma attach_idle_safe:
  assumes "safe H p" "conns p = Some cs" "idleConns p = Some ics"
  shows "safe H
           (p\<lparr>nextConn := nextConn p + 1, conns := Some (cs @ [nextConn p]),
              idleConns := Some (ics @ [nextConn p])\<rparr>)"
  using assms by (auto simp: safe_def split: option.splits)

lemma dialConn_open:
  "dialConn pl p = Returns (cn, None) p' \<Longrightarrow> lastDialError p \<noteq> None \<or> \<not> closed p'"
  by (auto simp: dialConn_def closed_def getLastDialError_def NewConn_alloc_def Let_def
        setLastDialError_def split: if_splits option.splits)

lemma dialConn_success:
  assumes "safe H p" "dialConn pl p = Returns (cn, None) p'"
  shows "cn = nextConn p \<and> \<not> closed p' \<and> cfg p' = cfg p \<and>
         dialErrorsNum p' = dialErrorsNum p \<and> lastDialError p' = lastDialError p \<and>
         nextConn p' = nextConn p + 1 \<and> acct p' = acct p \<and> conns p' = conns p \<and>
         idleConns p' = idleConns p \<and> closed_flag p' = closed_flag p \<and> tasks p' = tasks p"
proof -
  from assms have "\<not> closed p" "\<not> word_of_int (PoolSize (cfg p)) \<le> dialErrorsNum p"
    by (auto simp: dialConn_def getLastDialError_def safe_def split: if_splits)
  with assms(2) show ?thesis
    by (auto simp: dialConn_def NewConn_alloc_def closed_def fun_eq_iff acct_def pending_def
          Let_def split: option.splits)
qed

lemma newConn_safe:
  assumes "safe H p" "newConn pl p = Returns (cn, e) p'"
  shows "if e = None then safe (insert cn H) p' else safe H p'"
proof -
  from assms(2) obtain c1 e1 p1 where d: "dialConn pl p = Returns (c1, e1) p1"
    by (auto simp: newConn_def split: outcome.splits)
  show ?thesis
  proof (cases e1)
    case (Some a)
    with assms(2) d have "e = Some a" "p' = p1" by (auto simp: newConn_def)
    with dialConn_safe [OF assms(1) d] Some show ?thesis by simp
  next
    case None
    note s = dialConn_success [OF assms(1) d [unfolded None]]
    from assms(2) d None s obtain cs where c: "conns p = Some cs"
      by (auto simp: newConn_def split: option.splits)
    from assms(2) d None s c have e: "e = None" and cn: "cn = nextConn p"
      by (auto simp: newConn_def Let_def split: option.splits if_splits)
    have "safe (insert cn H) p' =
          safe (insert cn H) (p\<lparr>nextConn := nextConn p + 1, conns := Some (cs @ [nextConn p])\<rparr>)"
      using assms(2) d None s c
      by (intro safe_cong)
         (auto simp: newConn_def Let_def fun_eq_iff acct_def pending_def
               split: option.splits if_splits)
    with attach_safe [OF assms(1) c] e cn show ?thesis by simp
  qed
qed

lemma waitTurn_safe: "waitTurn ctx ev p = Returns e p' \<Longrightarrow> safe H p' = safe H p"
  by (auto simp: waitTurn_def split: option.splits if_splits wait_event.splits)

lemma freeTurn_safe: "freeTurn p = Returns e p' \<Longrightarrow> safe H p' = safe H p"
  by (auto simp: freeTurn_def split: if_splits)

lemma getTurn_safe: "getTurn p = Returns e p' \<Longrightarrow> safe H p' = safe H p"
  by (auto simp: getTurn_def split: if_splits)

lemma Get_safe:
  assumes "safe H p" "Get ctx ev p = Returns (cn, e) p'"
  shows "if e = None then safe (insert cn H) p' else safe H p'"
proof (cases "closed p")
  case True
  with assms show ?thesis by (auto simp: Get_def)
next
  case False
  with assms(2) obtain e1 p1 where w: "waitTurn ctx ev p = Returns e1 p1"
    by (auto simp: Get_def split: outcome.splits)
  have s1: "safe H p1" using waitTurn_safe [OF w] assms(1) by simp
  show ?thesis
  proof (cases e1)
    case (Some a)
    with assms(2) False w s1 show ?thesis by (auto simp: Get_def)
  next
    case None
    with assms(2) False w obtain l p2 where g: "Get_loop 0 p1 = Returns l p2"
      by (auto simp: Get_def split: outcome.splits)
    note ls = Get_loop_safe [OF g s1]
    show ?thesis
    proof (cases l)
      case (Some r')
      with assms(2) False w None g ls show ?thesis
        by (auto simp: Get_def split: option.splits)
    next
      case n: None
      let ?q = "p2\<lparr>stats := (stats p2)\<lparr>Misses := Misses (stats p2) + 1\<rparr>\<rparr>"
      from assms(2) False w None g n obtain c3 e3 p3
        where nc: "newConn True ?q = Returns (c3, e3) p3"
        by (auto simp: Get_def split: outcome.splits)
      from ls n have "safe H ?q" by simp
      note ns = newConn_safe [OF this nc]
      show ?thesis
      proof (cases e3)
        case None3: None
        with assms(2) False w None g n nc ns show ?thesis by (auto simp: Get_def)
      next
        case (Some a)
        with assms(2) False w None g n nc obtain u where f: "freeTurn p3 = Returns u p'"
          and "e = Some a"
          by (auto simp: Get_def split: outcome.splits)
        with ns Some freeTurn_safe [OF f] show ?thesis by simp
      qed
    qed
  qed
qed


lemma Close_loop_acct:
  "Close_loop cs fe p = Returns e p' \<Longrightarrow>
     cfg p' = cfg p \<and> dialErrorsNum p' = dialErrorsNum p \<and>
     lastDialError p' = lastDialError p \<and> nextConn p' = nextConn p \<and>
     closed_flag p' = closed_flag p \<and> (\<forall>c. acct p' c = acct p c + count_list cs c)"
proof (induction cs arbitrary: fe p)
  case Nil
  then show ?case by simp
next
  case (Cons cn cs)
  from Cons.prems obtain e1 p1 where c: "closeConn cn p = Returns e1 p1"
    and l: "Close_loop cs (if e1 \<noteq> None \<and> fe = None then e1 else fe) p1 = Returns e p'"
    by (auto split: outcome.splits)
  from Cons.IH [OF l] closeConn_bump [OF c] show ?case
    by (auto simp: acct_bump)
qed

lemma safe_flag: "safe H p \<Longrightarrow> closed_flag p = 0 \<or> closed_flag p = 1"
  by (auto simp: safe_def split: option.splits)

lemma safe_closed: "safe H p \<Longrightarrow> conns p = None \<Longrightarrow> safe H' p"
  by (auto simp: safe_def)

lemma count_list_distinct:
  "distinct xs \<Longrightarrow> count_list xs x = (if x \<in> set xs then 1 else 0)"
  by (induction xs) auto

lemma Close_safe:
  assumes "safe H p" "Close p = Returns e p'"
  shows "safe H' p'"
proof (cases "closed_flag p = 0")
  case False
  with assms(2) have p': "p' = p" by (simp add: Close_def)
  from False assms(1) have "conns p = None" by (auto simp: safe_def split: option.splits)
  with assms(1) p' show ?thesis by (simp add: safe_closed)
next
  case True
  with assms(2) obtain cs fe p2 where cs: "conns p = Some cs"
    and l: "Close_loop cs None (p\<lparr>closed_flag := 1\<rparr>) = Returns fe p2"
    and p': "p' = p2\<lparr>conns := None, poolSize := 0, idleConns := None, idleConnsLen := 0\<rparr>"
    by (auto simp: Close_def Let_def split: option.splits outcome.splits)
  from assms(1) cs have d: "distinct cs" by (auto simp: safe_def)
  then have cnt: "\<And>c. count_list cs c = (if c \<in> set cs then 1 else 0)"
    by (rule count_list_distinct)
  from Close_loop_acct [OF l] Close_loop_frame [OF l] cnt assms(1) cs p' show ?thesis
    by (auto simp: safe_def)
qed

lemma reapStaleConn_safe:
  assumes "safe H p" "reapStaleConn p = Returns cn p'"
  shows "if cn = 0 then safe H p' else safe H (bump cn p')"
proof -
  from assms(2) obtain ics where i: "idleConns p = Some ics"
    by (auto simp: reapStaleConn_def split: option.splits)
  show ?thesis
  proof (cases "ics = []")
    case True
    with assms i show ?thesis by (auto simp: reapStaleConn_def)
  next
    case ne: False
    with assms(2) i obtain stale where st: "isStaleConn (hd ics) p = Returns stale p"
      by (auto simp: reapStaleConn_def Let_def dest: isStaleConn_same split: outcome.splits)
    show ?thesis
    proof (cases stale)
      case False
      with assms i ne st show ?thesis by (auto simp: reapStaleConn_def Let_def)
    next
      case True
      let ?q = "p\<lparr>idleConns := Some (tl ics), idleConnsLen := idleConnsLen p - 1\<rparr>"
      from assms(2) i ne st True have r: "removeConn (hd ics) ?q = Returns () p'"
        and cn: "cn = hd ics"
        by (auto simp: reapStaleConn_def Let_def split: outcome.splits)
      from assms(1) i obtain cs where c: "conns p = Some cs" "distinct ics"
        "set ics \<subseteq> set cs" "H \<inter> set ics = {}"
        by (auto simp: safe_def split: option.splits)
      from ne have ics: "ics = hd ics # tl ics" by simp
      with c have m: "hd ics \<in> set cs" "hd ics \<notin> set (tl ics)" "hd ics \<notin> H"
        "set (tl ics) \<subseteq> set cs" "distinct (tl ics)" "H \<inter> set (tl ics) = {}"
        by (metis list.set_intros(1) subsetD, metis distinct.simps(2),
            metis disjoint_iff list.set_intros(1), metis list.set_intros(2) subsetI subsetD,
            metis distinct.simps(2), metis disjoint_iff list.set_intros(2))
      have "safe H (p\<lparr>idleConns := Some (tl ics)\<rparr>)"
        using assms(1) c i m by (auto simp: safe_def split: option.splits)
      then have q: "safe H ?q" by simp
      from removeConn_safe [OF q r, of cs "tl ics"] c m cn
      have "safe (H - {cn}) (bump cn p')" by simp
      moreover from assms(1) c m cn have "cn \<noteq> 0" "H - {cn} = H" by (auto simp: safe_def)
      ultimately show ?thesis by simp
    qed
  qed
qed

lemma safe_bump_queue:
  "freeTurn p = Returns u p' \<Longrightarrow> safe H (bump cn p') = safe H (bump cn p)"
  by (auto simp: freeTurn_def split: if_splits)

lemma ReapStaleConns_loop_safe:
  assumes "ReapStaleConns_loop n p = Returns m p'" "safe H p"
  shows "safe H p'"
  using assms
proof (induction n p rule: ReapStaleConns_loop.induct)
  case (1 n p)
  from "1.prems"(1) obtain u p1 where g: "getTurn p = Returns u p1"
    by (subst (asm) ReapStaleConns_loop.simps) (auto split: outcome.splits)
  from "1.prems"(1) g obtain cn p2 where r: "reapStaleConn p1 = Returns cn p2"
    by (subst (asm) ReapStaleConns_loop.simps) (auto split: outcome.splits)
  from "1.prems"(1) g r obtain v p3 where f: "freeTurn p2 = Returns v p3"
    by (subst (asm) ReapStaleConns_loop.simps) (auto split: outcome.splits)
  have s1: "safe H p1" using getTurn_safe [OF g] "1.prems"(2) by simp
  note rs = reapStaleConn_safe [OF s1 r]
  show ?case
  proof (cases "cn = 0")
    case True
    with "1.prems"(1) g r f have "p' = p3"
      by (subst (asm) ReapStaleConns_loop.simps) simp
    with rs True freeTurn_safe [OF f] show ?thesis by simp
  next
    case False
    with "1.prems"(1) g r f obtain e p4 where c: "closeConn cn p3 = Returns e p4"
      by (subst (asm) ReapStaleConns_loop.simps) (auto split: outcome.splits)
    from "1.prems"(1) g r f False c have l: "ReapStaleConns_loop (n + 1) p4 = Returns m p'"
      by (subst (asm) ReapStaleConns_loop.simps) simp
    from rs False safe_bump_queue [OF f] closeConn_bump [OF c] have "safe H p4" by simp
    from "1.IH" [OF g r f False c l this] show ?thesis .
  qed
qed

lemma ReapStaleConns_safe:
  assumes "ReapStaleConns p = Returns x p'" "safe H p"
  shows "safe H p'"
  using assms
  by (auto simp: ReapStaleConns_def dest: ReapStaleConns_loop_safe split: outcome.splits)

lemma count_list_drop_nth:
  assumes "k < length xs"
  shows "count_list (take k xs @ drop (Suc k) xs) x + (if xs ! k = x then 1 else 0) =
         count_list xs x"
proof -
  have "count_list xs x = count_list (take k xs @ xs ! k # drop (Suc k) xs) x"
    using assms by (simp add: id_take_nth_drop [symmetric])
  then show ?thesis by simp
qed

lemma dialed_failure_safe:
  assumes "safe H p"
  shows "safe H
           (if dialErrorsNum p + 1 = word_of_int (PoolSize (cfg p))
            then p\<lparr>lastDialError := Some a, dialErrorsNum := dialErrorsNum p + 1,
                   tasks := tasks p @ [ProbeTask, AddIdleReturned (Some a)]\<rparr>
            else p\<lparr>lastDialError := Some a, dialErrorsNum := dialErrorsNum p + 1,
                   tasks := tasks p @ [AddIdleReturned (Some a)]\<rparr>)"
  using assms by (auto simp: safe_def acct_def pending_def split: option.splits)

lemma dialed_closed_safe:
  assumes "safe H p" "closed p"
  shows "safe H (p\<lparr>nextConn := nextConn p + 1,
                    closeCalls := (closeCalls p)(nextConn p := closeCalls p (nextConn p) + 1)\<rparr>)"
proof -
  from assms have n: "conns p = None" by (auto simp: safe_def closed_def split: option.splits)
  have "acct p (nextConn p) = 0" using assms(1) by (simp add: safe_def)
  with assms(1) n show ?thesis
    by (auto simp: safe_def acct_def pending_def less_Suc_eq)
qed

lemma run_task_safe:
  assumes "safe H p" "k < length (tasks p)"
    "run_task (tasks p ! k) (p\<lparr>tasks := take k (tasks p) @ drop (Suc k) (tasks p)\<rparr>) =
       Returns u p'"
  shows "safe H p'"
proof -
  let ?q = "p\<lparr>tasks := take k (tasks p) @ drop (Suc k) (tasks p)\<rparr>"
  have pend: "pending ?q c + (if tasks p ! k = CloseTask c then 1 else 0) = pending p c" for c
    using count_list_drop_nth [OF assms(2), of "CloseTask c"] by (simp add: pending_def)
  have "AddIdleReturned None \<notin> set (tasks p)" using assms(1) by (simp add: safe_def)
  then have tidy: "AddIdleReturned None \<notin> set (tasks ?q)" "tasks p ! k \<noteq> AddIdleReturned None"
    using nth_mem [OF assms(2)] by (auto dest: in_set_takeD in_set_dropD)
  have other: "safe H ?q" if "\<And>c. tasks p ! k \<noteq> CloseTask c"
  proof -
    have "acct ?q x = acct p x" for x
      using pend [of x] that by (simp add: acct_def pending_def)
    then have "acct ?q = acct p" by (simp add: fun_eq_iff)
    with assms(1) tidy(1) show ?thesis by (simp add: safe_def cong: option.case_cong)
  qed
  show ?thesis
  proof (cases "tasks p ! k")
    case AddIdleTask
    then have q: "safe H ?q" by (intro other) simp
    show ?thesis
    proof (cases "closed ?q \<or> word_of_int (PoolSize (cfg ?q)) \<le> dialErrorsNum ?q")
      case True
      with q have "closed ?q \<or> getLastDialError ?q \<noteq> None"
        by (auto simp: safe_def getLastDialError_def)
      with assms(3) AddIdleTask True obtain e where
        "p' = ?q\<lparr>tasks := tasks ?q @ [AddIdleReturned (Some e)]\<rparr>"
        by (auto simp: run_task_def addIdleConn_begin_def dialConn_begin_def split: if_splits)
      moreover have "safe H (?q\<lparr>tasks := tasks ?q @ [AddIdleReturned (Some e)]\<rparr>) = safe H ?q"
        by (rule safe_cong) (simp_all add: fun_eq_iff acct_def pending_def)
      ultimately show ?thesis using q by simp
    next
      case False
      with assms(3) AddIdleTask obtain r where
        "p' = ?q\<lparr>dialCalls := dialCalls ?q + 1, tasks := tasks ?q @ [AddIdleDialing r]\<rparr>"
        by (auto simp: run_task_def addIdleConn_begin_def dialConn_begin_def)
      moreover have "safe H (?q\<lparr>dialCalls := dialCalls ?q + 1,
                        tasks := tasks ?q @ [AddIdleDialing r]\<rparr>) = safe H ?q"
        by (rule safe_cong) (simp_all add: fun_eq_iff acct_def pending_def)
      ultimately show ?thesis using q by simp
    qed
  next
    case (AddIdleDialing r)
    then have q: "safe H ?q" by (intro other) simp
    show ?thesis
    proof (cases r)
      case (Some a)
      with assms(3) AddIdleDialing have
        "p' = (if dialErrorsNum ?q + 1 = word_of_int (PoolSize (cfg ?q))
               then ?q\<lparr>lastDialError := Some a, dialErrorsNum := dialErrorsNum ?q + 1,
                       tasks := tasks ?q @ [ProbeTask, AddIdleReturned (Some a)]\<rparr>
               else ?q\<lparr>lastDialError := Some a, dialErrorsNum := dialErrorsNum ?q + 1,
                       tasks := tasks ?q @ [AddIdleReturned (Some a)]\<rparr>)"
        by (auto simp: run_task_def addIdleConn_dialed_def dialConn_end_def setLastDialError_def
              Let_def)
      with dialed_failure_safe [OF q, of a] show ?thesis by simp
    next
      case None
      show ?thesis
      proof (cases "closed ?q")
        case True
        with assms(3) AddIdleDialing None have
          "safe H p' = safe H (?q\<lparr>nextConn := nextConn ?q + 1,
              closeCalls := (closeCalls ?q)(nextConn ?q := closeCalls ?q (nextConn ?q) + 1)\<rparr>)"
          by (intro safe_cong)
             (auto simp: run_task_def addIdleConn_dialed_def dialConn_end_def NewConn_alloc_def
                addIdleConn_attach_def Conn_Close_def closed_def fun_eq_iff acct_def pending_def)
        with dialed_closed_safe [OF q True] show ?thesis by simp
      next
        case False
        with assms(3) AddIdleDialing None obtain cs ics where
          c: "conns ?q = Some cs" "idleConns ?q = Some ics"
          by (auto simp: run_task_def addIdleConn_dialed_def dialConn_end_def NewConn_alloc_def
                addIdleConn_attach_def closed_def split: option.splits)
        have "safe H p' =
              safe H (?q\<lparr>nextConn := nextConn ?q + 1, conns := Some (cs @ [nextConn ?q]),
                        idleConns := Some (ics @ [nextConn ?q])\<rparr>)"
          using assms(3) AddIdleDialing None False c
          by (intro safe_cong)
             (auto simp: run_task_def addIdleConn_dialed_def dialConn_end_def NewConn_alloc_def
                addIdleConn_attach_def closed_def fun_eq_iff acct_def pending_def)
        with attach_idle_safe [OF q c] show ?thesis by simp
      qed
    qed
  next
    case (AddIdleReturned e)
    then have q: "safe H ?q" by (intro other) simp
    from AddIdleReturned tidy(2) obtain a where "e = Some a" by (cases e) auto
    with assms(3) AddIdleReturned have
      "p' = ?q \<or> p' = ?q\<lparr>poolSize := poolSize ?q - 1, idleConnsLen := idleConnsLen ?q - 1\<rparr>"
      by (auto simp: run_task_def addIdleConn_returned_def split: if_splits)
    moreover have "safe H (?q\<lparr>poolSize := poolSize ?q - 1, idleConnsLen := idleConnsLen ?q - 1\<rparr>) =
        safe H ?q"
      by (rule safe_cong) simp_all
    ultimately show ?thesis using q by auto
  next
    case ProbeTask
    then have q: "safe H ?q" by (intro other) simp
    from assms(3) ProbeTask
    consider "p' = ?q" | e where "p' = spawn ProbeTask (?q\<lparr>dialCalls := dialCalls ?q + 1,
        lastDialError := Some e\<rparr>)"
      | "p' = ?q\<lparr>dialCalls := dialCalls ?q + 1, dialErrorsNum := 0,
                   probeCloses := probeCloses ?q + 1\<rparr>"
      by (auto simp: run_task_def tryDial_round_def setLastDialError_def
            split: if_splits option.splits)
    then show ?thesis
    proof cases
      case 1
      with q show ?thesis by simp
    next
      case 2
      have "safe H (?q\<lparr>lastDialError := Some e\<rparr>)"
        using q by (auto simp: safe_def split: option.splits)
      moreover have "safe H (?q\<lparr>dialCalls := dialCalls ?q + 1, lastDialError := Some e\<rparr>) =
          safe H (?q\<lparr>lastDialError := Some e\<rparr>)"
        by (rule safe_cong) simp_all
      ultimately show ?thesis using 2 by simp
    next
      case 3
      have "safe H (?q\<lparr>dialErrorsNum := 0\<rparr>)"
        using q by (auto simp: safe_def split: option.splits)
      moreover have "safe H p' = safe H (?q\<lparr>dialErrorsNum := 0\<rparr>)"
        unfolding 3 by (rule safe_cong) simp_all
      ultimately show ?thesis by simp
    qed
  next
    case (CloseTask c)
    with assms(3) obtain e where cl: "closeConn c ?q = Returns e p'"
      by (auto simp: run_task_def split: outcome.splits)
    have "acct (bump c ?q) x = acct p x" for x
      using pend [of x] CloseTask by (cases "x = c") (simp_all add: acct_def bump_def pending_def)
    then have "acct (bump c ?q) = acct p" by (simp add: fun_eq_iff)
    with assms(1) tidy(1) have "safe H (bump c ?q)"
      by (simp add: safe_def cong: option.case_cong)
    with closeConn_bump [OF cl] show ?thesis by simp
  qed
qed

lemma exec_safe:
  assumes "safe H p" "exec x p = Returns u p'" "\<not> is_Filter x"
    "case returned x of Some cn \<Rightarrow> cn \<in> H | None \<Rightarrow> True"
  shows "safe (held_after x p H) p'"
proof (cases x)
  case (Get_op ctx ev)
  with assms(2) obtain cn e where g: "Get ctx ev p = Returns (cn, e) p'"
    by (auto simp: discard_def split: outcome.splits)
  from Get_safe [OF assms(1) g] g Get_op show ?thesis
    by (auto simp: held_after_def split: option.splits)
next
  case (Put_op cn)
  with assms Put_safe [of H p cn u p'] show ?thesis by (simp add: held_after_def)
next
  case (Remove_op cn rs)
  with assms Remove_safe [of H p cn rs u p'] show ?thesis by (simp add: held_after_def)
next
  case NewConn_op
  with assms(2) obtain cn e where g: "newConn False p = Returns (cn, e) p'"
    by (auto simp: discard_def NewConn_def split: outcome.splits)
  from newConn_safe [OF assms(1) g] g NewConn_op show ?thesis
    by (auto simp: held_after_def NewConn_def split: option.splits)
next
  case (CloseConn_op cn)
  with assms(2) obtain e where "CloseConn cn p = Returns e p'"
    by (auto simp: discard_def split: outcome.splits)
  with assms CloseConn_op CloseConn_safe [of H p cn e p'] show ?thesis
    by (simp add: held_after_def)
next
  case (Filter_op fn)
  with assms(3) show ?thesis by simp
next
  case Close_op
  with assms(2) obtain e where "Close p = Returns e p'"
    by (auto simp: discard_def split: outcome.splits)
  from Close_safe [OF assms(1) this] Close_op show ?thesis by (simp add: held_after_def)
next
  case Len_op
  with assms show ?thesis
    by (auto simp: discard_def Len_def held_after_def split: outcome.splits option.splits)
next
  case IdleLen_op
  with assms show ?thesis by (auto simp: discard_def IdleLen_def held_after_def)
next
  case Stats_op
  with assms show ?thesis
    by (auto simp: discard_def Stats_of_def Len_def IdleLen_def held_after_def
             split: outcome.splits option.splits)
next
  case ReapStaleConns_op
  with assms show ?thesis
    by (auto simp: discard_def held_after_def dest: ReapStaleConns_safe split: outcome.splits)
next
  case Reaper_op
  with assms show ?thesis
    by (auto simp: discard_def held_after_def reaper_tick_def dest: ReapStaleConns_safe
             split: outcome.splits if_splits)
next
  case (Task_op k)
  with assms show ?thesis
    by (auto simp: held_after_def dest: run_task_safe split: if_splits)
next
  case (Tick_op d)
  with assms show ?thesis by (auto simp: held_after_def)
next
  case (Break_op cn)
  with assms show ?thesis by (auto simp: held_after_def world_conn_def split: option.splits)
next
  case (Recv_op cn n)
  with assms show ?thesis by (auto simp: held_after_def world_conn_def split: option.splits)
qed

lemma run_safe:
  "safe H p \<Longrightarrow> polite xs p H \<Longrightarrow> run xs p = Returns u p' \<Longrightarrow> \<exists>H'. safe H' p'"
proof (induction xs arbitrary: p H)
  case Nil
  then show ?case by auto
next
  case (Cons x xs)
  from Cons.prems(3) obtain v p1 where e: "exec x p = Returns v p1"
    and r: "run xs p1 = Returns u p'"
    by (auto split: outcome.splits)
  from Cons.prems(2) e have ok: "\<not> is_Filter x"
    "case returned x of Some cn \<Rightarrow> cn \<in> H | None \<Rightarrow> True"
    "polite xs p1 (held_after x p H)"
    by simp_all
  from exec_safe [OF Cons.prems(1) e ok(1,2)] have "safe (held_after x p H) p1" .
  from Cons.IH [OF this ok(3) r] show ?case .
qed

lemma NewConnPool_safe:
  assumes "0 < PoolSize opt" "PoolSize opt < 2 ^ 32" "NewConnPool opt = Returns u p"
  shows "safe {} p"
proof -
  from assms(1,2) have "\<not> (2 :: int) ^ 32 dvd PoolSize opt"
    by (auto dest: zdvd_imp_le)
  then have w: "word_of_int (PoolSize opt) \<noteq> (0 :: uint32)"
    by (simp add: word_of_int_eq_0_iff)
  have "safe {} (fresh_pool opt)"
    using w by (auto simp: safe_def fresh_pool_def acct_def pending_def)
  with assms(3) show ?thesis by (auto simp: NewConnPool_def split: if_splits)
qed

lemma safe_closes:
  assumes "safe H p"
  shows "closeCalls p c \<le> 1"
    and "0 < c \<and> c < nextConn p \<and> (\<forall>cs. conns p = Some cs \<longrightarrow> c \<notin> set cs) \<and>
         pending p c = 0 \<longrightarrow> closeCalls p c = 1"
proof -
  have "acct p c \<le> 1"
    using assms by (cases "c = 0 \<or> nextConn p \<le> c") (auto simp: safe_def split: option.splits)
  then show "closeCalls p c \<le> 1" by (simp add: acct_def)
  show "0 < c \<and> c < nextConn p \<and> (\<forall>cs. conns p = Some cs \<longrightarrow> c \<notin> set cs) \<and>
         pending p c = 0 \<longrightarrow> closeCalls p c = 1"
    using assms by (auto simp: safe_def acct_def split: option.splits)
qed

section \<open>Operations on a closed pool\<close>




section \<open>Waiting for a turn\<close>

text \<open>
  C7. \<open>waitTurn\<close> fails with the caller's context error, leaving the pool as it was (no
  timeout is charged and no ticket is taken), when the context is done on entry and when
  it fires during the wait on a full channel. It fails with \<open>ErrPoolTimeout\<close> exactly
  when the context is live on entry, the channel is full and the timer is the case that
  fires; \<open>stats.Timeouts\<close> then grows by one, and in every other case it is unchanged.
\<close>

theorem waitTurn_errors:
  "waitTurn (Some e) ev p = Returns (Some (ContextError e)) p \<and>
   (\<not> int (queue p) < PoolSize (cfg p) \<longrightarrow>
      waitTurn None (CtxFires e) p = Returns (Some (ContextError e)) p) \<and>
   ((\<exists>p'. waitTurn ctx ev p = Returns (Some ErrPoolTimeout) p') \<longleftrightarrow>
      (ctx = None \<and> \<not> int (queue p) < PoolSize (cfg p) \<and> ev = TimerFires)) \<and>
   (\<not> int (queue p) < PoolSize (cfg p) \<longrightarrow>
      waitTurn None TimerFires p =
        Returns (Some ErrPoolTimeout)
          (p\<lparr>stats := (stats p)\<lparr>Timeouts := Timeouts (stats p) + 1\<rparr>\<rparr>)) \<and>
   (waitTurn ctx ev p = Returns r p' \<and> r \<noteq> Some ErrPoolTimeout \<longrightarrow>
      Timeouts (stats p') = Timeouts (stats p))"
  by (auto simp: waitTurn_def split: option.splits wait_event.splits if_splits)

theorem waitTurn_errors_witness:
  "\<not> int (queue full_pool) < PoolSize (cfg full_pool) \<and>
   waitTurn None (CtxFires DeadlineExceeded) full_pool =
     Returns (Some (ContextError DeadlineExceeded)) full_pool \<and>
   waitTurn None TimerFires full_pool =
     Returns (Some ErrPoolTimeout)
       (full_pool\<lparr>stats := (stats full_pool)\<lparr>Timeouts := Timeouts (stats full_pool) + 1\<rparr>\<rparr>)"
proof -
  have full: "\<not> int (queue full_pool) < PoolSize (cfg full_pool)"
    by (simp add: full_pool_def fresh_pool_def opts_two_def)
  from full waitTurn_errors [of DeadlineExceeded TimerFires full_pool None]
  show ?thesis by blast
qed

section \<open>The idle-candidate loop of Get\<close>

text \<open>
  C2 (as amended). In \<open>Get\<close>, after a ticket is acquired, whatever the other callers and
  the goroutines do between the steps of the caller, the loop goes round by round, each
  round with one call of \<open>popIdle\<close>: a round that pops an unhealthy candidate evicts it
  asynchronously (\<open>AsyncCloseConn\<close> takes it out of \<open>conns\<close>, starts the goroutine that
  closes it and adds one to \<open>stats.StaleConns\<close>) and is not counted; a round that pops a
  healthy candidate ends the loop at once with that connection; a round whose pop returns
  no connection is counted, and the loop leaves for the miss path exactly at the third
  such round. So a \<open>Get\<close> makes at most three pops that return nothing, three exactly
  when it misses, and one pop more for each candidate it takes.
\<close>

theorem Get_loop_attempts:
  assumes "Get_loop_steps envs (Popping 0) p = Returns (r, log) p'"
  shows "loop_shape 0 (map fst log) r \<and>
         empties (map fst log) \<le> 3 \<and>
         (r = None \<longleftrightarrow> empties (map fst log) = 3) \<and>
         (\<forall>(ev, q, q') \<in> set log.
            popCalls q' = popCalls q + (if is_pop ev then 1 else 0) \<and> step_facts ev q q')"
proof -
  from Get_loop_steps_shape [OF assms] have s: "loop_shape 0 (map fst log) r" by simp
  from loop_shape_empties [OF s] Get_loop_steps_log [OF assms] s show ?thesis by auto
qed

theorem Get_loop_attempts_witness:
  "\<exists>tr p'.
     Get_loop_steps [[], [], [], [Get_op None TimerFires, Put_op 2]] (Popping 0) taken_pool =
       Returns (Some (2, None), tr) p' \<and>
     map fst tr = [Popped 1, Unhealthy 1, Evicted 1, Empty, Popped 2, Hit 2] \<and>
     loop_shape 0 (map fst tr) (Some (2, None)) \<and> empties (map fst tr) \<le> 3 \<and>
     (\<forall>(ev, q, q') \<in> set tr.
        popCalls q' = popCalls q + (if is_pop ev then 1 else 0) \<and> step_facts ev q q')"
proof -
  have "\<exists>tr p'.
     Get_loop_steps [[], [], [], [Get_op None TimerFires, Put_op 2]] (Popping 0) taken_pool =
       Returns (Some (2, None), tr) p' \<and>
     map fst tr = [Popped 1, Unhealthy 1, Evicted 1, Empty, Popped 2, Hit 2]"
    by (simp add: taken_pool_def broken_idle_pool_def opts_two_def Get_loop_steps.simps
          Get_step_def eval_defs)
  then obtain tr p' where
    g: "Get_loop_steps [[], [], [], [Get_op None TimerFires, Put_op 2]] (Popping 0) taken_pool =
       Returns (Some (2, None), tr) p'"
    and l: "map fst tr = [Popped 1, Unhealthy 1, Evicted 1, Empty, Popped 2, Hit 2]"
    by (elim exE conjE)
  from Get_loop_attempts [OF g] have
    "loop_shape 0 (map fst tr) (Some (2, None))" "empties (map fst tr) \<le> 3"
    "\<forall>(ev, q, q') \<in> set tr.
        popCalls q' = popCalls q + (if is_pop ev then 1 else 0) \<and> step_facts ev q q'"
    by simp_all
  with g l show ?thesis by (intro exI conjI)
qed

text \<open>
  C2 as stated fails: on an empty idle list \<open>Get\<close> pops three times before it dials, and
  with one broken idle connection it pops four times.
\<close>

theorem Get_loop_attempts_counterexample:
  "(\<exists>p'. Get None TimerFires (fresh_pool opts_two) = Returns (1, None) p' \<and>
         idleConns (fresh_pool opts_two) = Some [] \<and>
         popCalls p' = popCalls (fresh_pool opts_two) + 3) \<and>
   (\<exists>p'. Get None TimerFires broken_idle_pool = Returns (2, None) p' \<and>
         popCalls p' = popCalls broken_idle_pool + 4)"
  by (simp add: broken_idle_pool_def opts_two_def eval_defs)

section \<open>Health eviction in Get\<close>

text \<open>
  C10. \<open>AsyncCloseConn\<close> adds one to \<open>stats.StaleConns\<close> and leaves the channel as it
  is. In \<open>Get\<close>, a round of the loop whose candidate fails the health check goes on from
  the pool that \<open>AsyncCloseConn\<close> leaves: \<open>StaleConns\<close> is one more than before the
  round and the ticket of the caller is still taken.
\<close>

theorem unhealthy_idle_eviction:
  "(AsyncCloseConn cn p = Returns u p' \<longrightarrow>
      StaleConns (stats p') = StaleConns (stats p) + 1 \<and> queue p' = queue p) \<and>
   (popIdle p = Returns (cn, None) p1 \<and> cn \<noteq> 0 \<and>
    isHealthyConn cn p1 = Returns False p2 \<and> AsyncCloseConn cn p2 = Returns u p3 \<longrightarrow>
      Get_loop i p = Get_loop i p3 \<and>
      StaleConns (stats p3) = StaleConns (stats p) + 1 \<and> queue p3 = queue p)"
proof (intro conjI impI)
  assume "AsyncCloseConn cn p = Returns u p'"
  then show "StaleConns (stats p') = StaleConns (stats p) + 1" "queue p' = queue p"
    by (auto dest!: AsyncCloseConn_frame)
next
  assume a: "popIdle p = Returns (cn, None) p1 \<and> cn \<noteq> 0 \<and>
    isHealthyConn cn p1 = Returns False p2 \<and> AsyncCloseConn cn p2 = Returns u p3"
  then show "Get_loop i p = Get_loop i p3"
    by (simp add: Get_loop_unhealthy)
  from a show "StaleConns (stats p3) = StaleConns (stats p) + 1" "queue p3 = queue p"
    by (auto dest!: popIdle_frame isHealthyConn_frame AsyncCloseConn_frame)
qed


theorem unhealthy_idle_eviction_witness:
  "\<exists>p1 p2 p3. popIdle broken_idle_pool = Returns (1, None) p1 \<and>
     isHealthyConn 1 p1 = Returns False p2 \<and> AsyncCloseConn 1 p2 = Returns () p3 \<and>
     Get_loop 0 broken_idle_pool = Get_loop 0 p3 \<and>
     StaleConns (stats p3) = StaleConns (stats broken_idle_pool) + 1 \<and>
     queue p3 = queue broken_idle_pool"
proof -
  have "\<exists>p1. popIdle broken_idle_pool = Returns (1, None) p1 \<and>
          (\<exists>p2. isHealthyConn 1 p1 = Returns False p2 \<and>
             (\<exists>p3. AsyncCloseConn 1 p2 = Returns () p3))"
    by (simp add: broken_idle_pool_def opts_two_def eval_defs)
  then obtain p1 p2 p3 where h: "popIdle broken_idle_pool = Returns (1, None) p1"
    "isHealthyConn 1 p1 = Returns False p2" "AsyncCloseConn 1 p2 = Returns () p3"
    by blast
  with unhealthy_idle_eviction [where cn = 1 and p = broken_idle_pool and ?p1.0 = p1
      and ?p2.0 = p2 and ?p3.0 = p3 and i = 0]
  show ?thesis by (intro exI [of _ p1] exI [of _ p2] exI [of _ p3]) simp
qed

section \<open>A pooled dial into a full pool\<close>

text \<open>
  C9. When \<open>newConn\<close> is called with \<open>pooled = true\<close> and returns a connection while
  \<open>poolSize\<close> has reached \<open>PoolSize\<close>, the connection is the new last element of
  \<open>conns\<close>, its \<open>pooled\<close> flag is false and \<open>poolSize\<close> is unchanged. A successful
  \<open>Get\<close> on a pool with \<open>poolSize\<close> at most \<open>PoolSize\<close> leaves \<open>poolSize\<close> at most
  \<open>PoolSize\<close>. A \<open>Put\<close> of a connection that is not pooled leaves the idle list and
  its length as they are, takes the connection out of \<open>conns\<close> and starts its close.
\<close>

theorem full_pool_conn_not_pooled:
  "(newConn True p = Returns (cn, None) p' \<and> PoolSize (cfg p) \<le> poolSize p \<longrightarrow>
      (\<exists>cs c. conns p = Some cs \<and> conns p' = Some (cs @ [cn]) \<and> heap p' cn = Some c \<and>
           \<not> pooled c \<and> poolSize p' = poolSize p)) \<and>
   (Get ctx ev p = Returns (cn, None) p' \<and> poolSize p \<le> PoolSize (cfg p) \<longrightarrow>
      poolSize p' \<le> PoolSize (cfg p')) \<and>
   (Put cn p = Returns u p' \<and> heap p cn = Some c \<and> \<not> pooled c \<longrightarrow>
      idleConns p' = idleConns p \<and> idleConnsLen p' = idleConnsLen p \<and>
      tasks p' = tasks p @ [CloseTask cn] \<and>
      (\<exists>cs. conns p = Some cs \<and> conns p' = Some (remove1 cn cs)))"
  using newConn_full [of p cn p'] Get_poolSize [of ctx ev p "(cn, None)" p']
    Put_unpooled [of cn p u p' c]
  by blast

theorem full_pool_conn_not_pooled_witness:
  "\<exists>q p1 p2 c.
     PoolSize (cfg reserved_pool) \<le> poolSize reserved_pool \<and>
     poolSize reserved_pool \<le> PoolSize (cfg reserved_pool) \<and>
     newConn True reserved_pool = Returns (1, None) q \<and> poolSize q = poolSize reserved_pool \<and>
     Get None TimerFires reserved_pool = Returns (1, None) p1 \<and>
     poolSize p1 \<le> PoolSize (cfg p1) \<and> heap p1 1 = Some c \<and> \<not> pooled c \<and>
     Put 1 p1 = Returns () p2 \<and> idleConns p2 = idleConns p1 \<and>
     tasks p2 = tasks p1 @ [CloseTask 1]"
proof -
  have b: "PoolSize (cfg reserved_pool) \<le> poolSize reserved_pool"
    "poolSize reserved_pool \<le> PoolSize (cfg reserved_pool)"
    by (simp_all add: reserved_pool_def opts_min_def fresh_pool_def)
  have "\<exists>q. newConn True reserved_pool = Returns (1, None) q"
    by (simp add: reserved_pool_def opts_min_def eval_defs)
  then obtain q where q: "newConn True reserved_pool = Returns (1, None) q" ..
  have "\<exists>p1. Get None TimerFires reserved_pool = Returns (1, None) p1 \<and>
          (\<exists>c. heap p1 1 = Some c \<and> \<not> pooled c) \<and> (\<exists>p2. Put 1 p1 = Returns () p2)"
    by (simp add: reserved_pool_def opts_min_def eval_defs)
  then obtain p1 c p2 where g: "Get None TimerFires reserved_pool = Returns (1, None) p1"
    and c: "heap p1 1 = Some c" "\<not> pooled c" and p: "Put 1 p1 = Returns () p2"
    by blast
  from full_pool_conn_not_pooled [where p = reserved_pool and cn = 1 and p' = q] q b
  have 1: "poolSize q = poolSize reserved_pool" by auto
  from full_pool_conn_not_pooled [where p = reserved_pool and cn = 1 and p' = p1
      and ctx = None and ev = TimerFires] g b
  have 2: "poolSize p1 \<le> PoolSize (cfg p1)" by auto
  from full_pool_conn_not_pooled [where p = p1 and cn = 1 and p' = p2 and c = c] p c
  have 3: "idleConns p2 = idleConns p1" "tasks p2 = tasks p1 @ [CloseTask 1]" by auto
  from b q g c p 1 2 3 show ?thesis by blast
qed

section \<open>Put\<close>

text \<open>
  C8 (as amended). A \<open>Put\<close> of a connection returns whenever the lists are there and the
  channel holds a ticket, and a \<open>Put\<close> that returns has taken exactly one ticket out.
  With buffered input the connection goes through \<open>AsyncRemove\<close> with a \<open>BadConnError\<close>
  reason. Otherwise, a pooled connection is appended at the tail of \<open>idleConns\<close> and
  \<open>idleConnsLen\<close> grows by one when \<open>MaxIdleConns\<close> is 0 or not reached; when it is
  reached the connection is taken out of \<open>conns\<close>, \<open>poolSize\<close> is decremented (after
  which the filler may reserve \<open>k\<close> slots again, none when \<open>MinIdleConns\<close> is 0) and
  its close is started. A connection that is not pooled is taken out of \<open>conns\<close> and
  its close is started, and \<open>poolSize\<close> stays as it is.
\<close>

theorem Put_cases:
  "heap p cn = Some c \<Longrightarrow>
   (conns p \<noteq> None \<and> idleConns p \<noteq> None \<and> 0 < queue p \<longrightarrow>
      (\<exists>p'. Put cn p = Returns () p')) \<and>
   (Put cn p = Returns u p' \<longrightarrow>
      queue p' + 1 = queue p \<and>
      (0 < rd_Buffered c \<longrightarrow>
         Put cn p = AsyncRemove cn (Some BadConnError) p \<and> idleConns p' = idleConns p \<and>
         (\<exists>cs. conns p = Some cs \<and> conns p' = Some (remove1 cn cs)) \<and>
         CloseTask cn \<in> set (tasks p')) \<and>
      (\<not> 0 < rd_Buffered c \<and> pooled c \<and>
       (MaxIdleConns (cfg p) = 0 \<or> idleConnsLen p < MaxIdleConns (cfg p)) \<longrightarrow>
         (\<exists>ics. idleConns p = Some ics \<and> idleConns p' = Some (ics @ [cn])) \<and>
         idleConnsLen p' = idleConnsLen p + 1 \<and> conns p' = conns p \<and>
         poolSize p' = poolSize p \<and> tasks p' = tasks p) \<and>
      (\<not> 0 < rd_Buffered c \<and> pooled c \<and>
       \<not> (MaxIdleConns (cfg p) = 0 \<or> idleConnsLen p < MaxIdleConns (cfg p)) \<longrightarrow>
         idleConns p' = idleConns p \<and>
         (\<exists>cs. conns p = Some cs \<and> conns p' = Some (remove1 cn cs) \<and>
            (cn \<in> set cs \<longrightarrow>
               (\<exists>k. poolSize p' = poolSize p - 1 + int k \<and>
                    idleConnsLen p' = idleConnsLen p + int k \<and>
                    tasks p' = tasks p @ replicate k AddIdleTask @ [CloseTask cn] \<and>
                    (MinIdleConns (cfg p) = 0 \<longrightarrow> k = 0))))) \<and>
      (\<not> 0 < rd_Buffered c \<and> \<not> pooled c \<longrightarrow>
         idleConns p' = idleConns p \<and> idleConnsLen p' = idleConnsLen p \<and>
         poolSize p' = poolSize p \<and> tasks p' = tasks p @ [CloseTask cn] \<and>
         (\<exists>cs. conns p = Some cs \<and> conns p' = Some (remove1 cn cs))))"
proof (intro conjI impI)
  assume h: "heap p cn = Some c"
  {
    assume "conns p \<noteq> None \<and> idleConns p \<noteq> None \<and> 0 < queue p"
    with h show "\<exists>p'. Put cn p = Returns () p'" by (auto intro: Put_returns)
  }
  assume r: "Put cn p = Returns u p'"
  show "queue p' + 1 = queue p" by (rule Put_ticket [OF r])
  {
    assume "0 < rd_Buffered c"
    from Put_buffered [OF r h this]
    show "Put cn p = AsyncRemove cn (Some BadConnError) p" "idleConns p' = idleConns p"
      "\<exists>cs. conns p = Some cs \<and> conns p' = Some (remove1 cn cs)"
      "CloseTask cn \<in> set (tasks p')"
      by blast+
  }
  {
    assume a: "\<not> 0 < rd_Buffered c \<and> pooled c \<and>
       (MaxIdleConns (cfg p) = 0 \<or> idleConnsLen p < MaxIdleConns (cfg p))"
    then have "\<not> 0 < rd_Buffered c" "pooled c"
      "MaxIdleConns (cfg p) = 0 \<or> idleConnsLen p < MaxIdleConns (cfg p)" by blast+
    from Put_idle [OF r h this]
    show "\<exists>ics. idleConns p = Some ics \<and> idleConns p' = Some (ics @ [cn])"
      "idleConnsLen p' = idleConnsLen p + 1" "conns p' = conns p"
      "poolSize p' = poolSize p" "tasks p' = tasks p"
      by blast+
  }
  {
    assume a: "\<not> 0 < rd_Buffered c \<and> pooled c \<and>
       \<not> (MaxIdleConns (cfg p) = 0 \<or> idleConnsLen p < MaxIdleConns (cfg p))"
    then have "\<not> 0 < rd_Buffered c" "pooled c"
      "\<not> (MaxIdleConns (cfg p) = 0 \<or> idleConnsLen p < MaxIdleConns (cfg p))" by blast+
    from Put_overflow [OF r h this]
    show "idleConns p' = idleConns p"
      "\<exists>cs. conns p = Some cs \<and> conns p' = Some (remove1 cn cs) \<and>
            (cn \<in> set cs \<longrightarrow>
               (\<exists>k. poolSize p' = poolSize p - 1 + int k \<and>
                    idleConnsLen p' = idleConnsLen p + int k \<and>
                    tasks p' = tasks p @ replicate k AddIdleTask @ [CloseTask cn] \<and>
                    (MinIdleConns (cfg p) = 0 \<longrightarrow> k = 0)))"
      by blast+
  }
  {
    assume a: "\<not> 0 < rd_Buffered c \<and> \<not> pooled c"
    then have np: "\<not> pooled c" by blast
    from Put_unpooled [OF r h np]
    show "idleConns p' = idleConns p" "idleConnsLen p' = idleConnsLen p"
      "poolSize p' = poolSize p" "tasks p' = tasks p @ [CloseTask cn]"
      "\<exists>cs. conns p = Some cs \<and> conns p' = Some (remove1 cn cs)"
      by blast+
  }
qed


theorem Put_cases_witness:
  "\<exists>p'. heap capped_pool 2 = Some (new_conn True) \<and> Put 2 capped_pool = Returns () p' \<and>
     \<not> 0 < rd_Buffered (new_conn True) \<and> pooled (new_conn True) \<and>
     \<not> (MaxIdleConns (cfg capped_pool) = 0 \<or>
        idleConnsLen capped_pool < MaxIdleConns (cfg capped_pool)) \<and>
     MinIdleConns (cfg capped_pool) = 0 \<and> conns capped_pool = Some [1, 2] \<and>
     queue p' + 1 = queue capped_pool \<and> idleConns p' = idleConns capped_pool \<and>
     conns p' = Some [1] \<and> poolSize p' = poolSize capped_pool - 1 \<and>
     idleConnsLen p' = idleConnsLen capped_pool \<and>
     tasks p' = tasks capped_pool @ [CloseTask 2]"
proof -
  have h: "heap capped_pool 2 = Some (new_conn True)"
    and c: "conns capped_pool = Some [1, 2]" "idleConns capped_pool \<noteq> None"
      "0 < queue capped_pool"
    and m: "\<not> (MaxIdleConns (cfg capped_pool) = 0 \<or>
        idleConnsLen capped_pool < MaxIdleConns (cfg capped_pool))"
      "MinIdleConns (cfg capped_pool) = 0"
    and n: "\<not> 0 < rd_Buffered (new_conn True)" "pooled (new_conn True)"
    by (simp_all add: capped_pool_def fresh_pool_def opts_cap_def new_conn_def)
  note t = Put_cases [OF h, where u = "()"]
  from t c obtain p' where p: "Put 2 capped_pool = Returns () p'" by blast
  from t [of p'] p m n c(1)
  have "queue p' + 1 = queue capped_pool" "idleConns p' = idleConns capped_pool"
    "conns p' = Some (remove1 2 [1, 2])"
    "\<exists>k. poolSize p' = poolSize capped_pool - 1 + int k \<and>
         idleConnsLen p' = idleConnsLen capped_pool + int k \<and>
         tasks p' = tasks capped_pool @ replicate k AddIdleTask @ [CloseTask 2] \<and> k = 0"
    by auto
  with h p m n c(1) show ?thesis by auto
qed

text \<open>
  C8 as stated fails for a connection that is not pooled: it is neither re-idled nor is
  \<open>poolSize\<close> decremented when it is removed.
\<close>

theorem Put_cases_counterexample:
  "\<exists>p'. heap unpooled_pool 1 = Some (new_conn False) \<and>
     \<not> 0 < rd_Buffered (new_conn False) \<and> \<not> pooled (new_conn False) \<and>
     Put 1 unpooled_pool = Returns () p' \<and>
     conns unpooled_pool = Some [1] \<and> conns p' = Some [] \<and>
     idleConns p' = idleConns unpooled_pool \<and> tasks p' = tasks unpooled_pool @ [CloseTask 1] \<and>
     poolSize p' = poolSize unpooled_pool"
  by (simp add: unpooled_pool_def reserved_pool_def new_conn_def opts_min_def eval_defs)

section \<open>The dial-error circuit\<close>

text \<open>
  C6 (as amended). On an open pool: a dial of \<open>dialConn\<close> that fails records the error,
  adds one to \<open>dialErrorsNum\<close>, and starts the prober exactly when the counter thereby
  reaches \<open>PoolSize\<close>; a dial that succeeds leaves the counter alone and starts
  nothing; and when the counter has reached \<open>PoolSize\<close>, \<open>dialConn\<close> returns the last
  recorded error and leaves the pool as it is, so the Dialer is not called. A round of
  the prober whose dial fails records the error, leaves the counter as it is and goes on;
  the round whose dial succeeds closes the probe socket, sets \<open>dialErrorsNum\<close> to zero,
  leaves the lists of the pool alone and ends the prober.
\<close>

theorem dial_circuit:
  "\<not> closed p \<Longrightarrow>
   (\<not> word_of_int (PoolSize (cfg p)) \<le> dialErrorsNum p \<and>
    Dialer (cfg p) (dialCalls p) = Some e \<longrightarrow>
      (\<exists>p'. dialConn pl p = Returns (0, Some e) p' \<and>
         dialErrorsNum p' = dialErrorsNum p + 1 \<and> lastDialError p' = Some e \<and>
         dialCalls p' = dialCalls p + 1 \<and>
         tasks p' = (if dialErrorsNum p + 1 = word_of_int (PoolSize (cfg p))
                     then tasks p @ [ProbeTask] else tasks p))) \<and>
   (\<not> word_of_int (PoolSize (cfg p)) \<le> dialErrorsNum p \<and>
    Dialer (cfg p) (dialCalls p) = None \<longrightarrow>
      (\<exists>cn p'. dialConn pl p = Returns (cn, None) p' \<and>
         dialErrorsNum p' = dialErrorsNum p \<and> dialCalls p' = dialCalls p + 1 \<and>
         tasks p' = tasks p)) \<and>
   (word_of_int (PoolSize (cfg p)) \<le> dialErrorsNum p \<longrightarrow>
      dialConn pl p = Returns (0, lastDialError p) p) \<and>
   (Dialer (cfg p) (dialCalls p) = Some e \<longrightarrow>
      tryDial_round p =
        (True, p\<lparr>dialCalls := dialCalls p + 1, lastDialError := Some e\<rparr>)) \<and>
   (Dialer (cfg p) (dialCalls p) = None \<longrightarrow>
      tryDial_round p =
        (False, p\<lparr>dialCalls := dialCalls p + 1, dialErrorsNum := 0,
                  probeCloses := probeCloses p + 1\<rparr>))"
  by (auto simp: dialConn_def tryDial_round_def setLastDialError_def getLastDialError_def
        NewConn_alloc_def Let_def)

theorem dial_circuit_witness:
  "\<not> closed failed_once_pool \<and> \<not> closed tripped_pool \<and>
   \<not> word_of_int (PoolSize (cfg failed_once_pool)) \<le> dialErrorsNum failed_once_pool \<and>
   Dialer (cfg failed_once_pool) (dialCalls failed_once_pool) = Some (DialError 1) \<and>
   dialErrorsNum failed_once_pool + 1 = word_of_int (PoolSize (cfg failed_once_pool)) \<and>
   (\<exists>p'. dialConn True failed_once_pool = Returns (0, Some (DialError 1)) p' \<and>
      dialErrorsNum p' = 2 \<and> tasks p' = tasks failed_once_pool @ [ProbeTask]) \<and>
   word_of_int (PoolSize (cfg tripped_pool)) \<le> dialErrorsNum tripped_pool \<and>
   dialConn True tripped_pool = Returns (0, Some (DialError 1)) tripped_pool \<and>
   Dialer (cfg tripped_pool) (dialCalls tripped_pool) = None \<and>
   tryDial_round tripped_pool =
     (False, tripped_pool\<lparr>dialCalls := 3, dialErrorsNum := 0, probeCloses := 1\<rparr>)"
proof -
  have a: "\<not> closed failed_once_pool"
    "\<not> word_of_int (PoolSize (cfg failed_once_pool)) \<le> dialErrorsNum failed_once_pool"
    "Dialer (cfg failed_once_pool) (dialCalls failed_once_pool) = Some (DialError 1)"
    "dialErrorsNum failed_once_pool + 1 = word_of_int (PoolSize (cfg failed_once_pool))"
    "dialErrorsNum failed_once_pool + 1 = 2"
    by (simp_all add: failed_once_pool_def fresh_pool_def opts_down_def closed_def
          word_le_nat_alt)
  have b: "\<not> closed tripped_pool"
    "word_of_int (PoolSize (cfg tripped_pool)) \<le> dialErrorsNum tripped_pool"
    "Dialer (cfg tripped_pool) (dialCalls tripped_pool) = None"
    "lastDialError tripped_pool = Some (DialError 1)"
    "dialCalls tripped_pool + 1 = 3" "probeCloses tripped_pool + 1 = 1"
    by (simp_all add: tripped_pool_def fresh_pool_def opts_down_def closed_def)
  from dial_circuit [OF a(1), of "DialError 1" True] a
  have 1: "\<exists>p'. dialConn True failed_once_pool = Returns (0, Some (DialError 1)) p' \<and>
      dialErrorsNum p' = 2 \<and> tasks p' = tasks failed_once_pool @ [ProbeTask]"
    by auto
  from dial_circuit [OF b(1), of "DialError 1" True] b
  have 2: "dialConn True tripped_pool = Returns (0, Some (DialError 1)) tripped_pool"
    "tryDial_round tripped_pool =
     (False, tripped_pool\<lparr>dialCalls := 3, dialErrorsNum := 0, probeCloses := 1\<rparr>)"
    by auto
  from a b 1 2 show ?thesis by blast
qed


text \<open>
  C6 as stated fails twice: a failed dial of the prober is not counted, and on a closed
  pool \<open>dialConn\<close> returns \<open>ErrClosed\<close>, whatever the counter and the recorded error are.
\<close>

theorem dial_circuit_counterexample:
  "Dialer (cfg outage_pool) (dialCalls outage_pool) = Some (DialError 2) \<and>
   tryDial_round outage_pool =
     (True, outage_pool\<lparr>dialCalls := 3, lastDialError := Some (DialError 2)\<rparr>) \<and>
   dialErrorsNum (snd (tryDial_round outage_pool)) = dialErrorsNum outage_pool \<and>
   word_of_int (PoolSize (cfg closed_tripped_pool)) \<le> dialErrorsNum closed_tripped_pool \<and>
   lastDialError closed_tripped_pool = Some (DialError 1) \<and>
   dialConn True closed_tripped_pool = Returns (0, Some ErrClosed) closed_tripped_pool"
  by (simp add: outage_pool_def closed_tripped_pool_def tripped_pool_def opts_outage_def
        opts_down_def eval_defs)

section \<open>The bound on idle connections\<close>

text \<open>
  C5 (as amended). For a pool made by \<open>NewConnPool\<close> with \<open>MaxIdleConns > 0\<close> and
  \<open>MinIdleConns \<le> MaxIdleConns\<close>, after every step of every schedule (the calls of
  the public methods, the fillers and the other goroutines) the idle counter is at most
  \<open>MaxIdleConns\<close>.
\<close>

theorem idle_bound:
  assumes "0 < MaxIdleConns opt" "MinIdleConns opt \<le> MaxIdleConns opt"
    "NewConnPool opt = Returns u p0" "run ops p0 = Returns v p"
  shows "idleConnsLen p \<le> MaxIdleConns (cfg p)"
proof -
  have "idle_ok p0" using NewConnPool_idle_ok [OF assms(1-3)] by simp
  with assms(4) have "idle_ok p" by (rule run_idle_ok)
  then show ?thesis by (simp add: idle_ok_def)
qed


theorem idle_bound_witness:
  "\<exists>p0 p. 0 < MaxIdleConns opts_cap \<and> MinIdleConns opts_cap \<le> MaxIdleConns opts_cap \<and>
     NewConnPool opts_cap = Returns () p0 \<and>
     run [Get_op None TimerFires, Get_op None TimerFires, Put_op 1, Put_op 2, Task_op 0] p0 =
       Returns () p \<and>
     idleConns p = Some [1] \<and> closeCalls p 2 = 1 \<and>
     idleConnsLen p \<le> MaxIdleConns (cfg p)"
proof -
  have a: "0 < MaxIdleConns opts_cap" "MinIdleConns opts_cap \<le> MaxIdleConns opts_cap"
    by (simp_all add: opts_cap_def)
  have "\<exists>p0. NewConnPool opts_cap = Returns () p0 \<and>
     (\<exists>p. run [Get_op None TimerFires, Get_op None TimerFires, Put_op 1, Put_op 2, Task_op 0] p0 =
       Returns () p \<and> idleConns p = Some [1] \<and> closeCalls p 2 = 1)"
    by (simp add: opts_cap_def eval_defs)
  then obtain p0 p where n: "NewConnPool opts_cap = Returns () p0"
    and r: "run [Get_op None TimerFires, Get_op None TimerFires, Put_op 1, Put_op 2, Task_op 0] p0 =
       Returns () p" "idleConns p = Some [1]" "closeCalls p 2 = 1"
    by blast
  from idle_bound [OF a n r(1)] a n r show ?thesis by blast
qed

text \<open>
  C5 as stated fails when \<open>MinIdleConns\<close> exceeds \<open>MaxIdleConns\<close>: the filler reserves up
  to \<open>MinIdleConns\<close> slots and never looks at \<open>MaxIdleConns\<close>.
\<close>

theorem idle_bound_counterexample:
  "\<exists>p0 p. NewConnPool opts_over = Returns () p0 \<and> MaxIdleConns (cfg p0) = 1 \<and>
     idleConnsLen p0 = 2 \<and>
     run [Task_op 0, Task_op 0, Task_op 0, Task_op 0] p0 = Returns () p \<and> MaxIdleConns (cfg p) = 1 \<and>
     idleConns p = Some [1, 2] \<and> idleConnsLen p = 2"
  by (simp add: opts_over_def eval_defs)

section \<open>Hits and misses\<close>

text \<open>
  C4 (as amended). At every point of every schedule, \<open>stats.Hits + stats.Misses\<close> (in
  32 bits) has grown by the number of calls of \<open>Get\<close> that returned a connection plus
  the number of calls of \<open>Get\<close> that missed the idle list and then failed to dial a new
  connection.
\<close>

theorem served_count:
  assumes "run ops p0 = Returns u p"
  shows "Hits (stats p) + Misses (stats p) =
           Hits (stats p0) + Misses (stats p0) +
           of_nat (successful_gets ops p0 + failed_dial_gets ops p0)"
proof -
  from assms have "served p = served p0 + of_nat (successful_gets ops p0 + failed_dial_gets ops p0)"
  proof (induction ops arbitrary: p0)
    case Nil
    then show ?case by simp
  next
    case (Cons x xs)
    from Cons.prems obtain v p1 where e: "exec x p0 = Returns v p1" and r: "run xs p1 = Returns u p"
      by (auto split: outcome.splits)
    from Cons.IH [OF r] exec_served [OF e] e show ?case
      by (cases x) (simp_all add: algebra_simps)
  qed
  then show ?thesis by (simp add: served_def)
qed


theorem served_count_witness:
  "\<exists>p. run outage_schedule (fresh_pool opts_down) = Returns () p \<and>
     successful_gets outage_schedule (fresh_pool opts_down) = 2 \<and>
     failed_dial_gets outage_schedule (fresh_pool opts_down) = 3 \<and>
     Hits (stats p) = 1 \<and> Misses (stats p) = 4 \<and>
     Hits (stats p) + Misses (stats p) =
       Hits (stats (fresh_pool opts_down)) + Misses (stats (fresh_pool opts_down)) +
       of_nat (successful_gets outage_schedule (fresh_pool opts_down) +
               failed_dial_gets outage_schedule (fresh_pool opts_down))"
proof -
  have "\<exists>p. run outage_schedule (fresh_pool opts_down) = Returns () p \<and>
     Hits (stats p) = 1 \<and> Misses (stats p) = 4"
    by (simp add: outage_schedule_def opts_down_def eval_defs word_le_nat_alt)
  then obtain p where r: "run outage_schedule (fresh_pool opts_down) = Returns () p"
    "Hits (stats p) = 1" "Misses (stats p) = 4"
    by blast
  have s: "successful_gets outage_schedule (fresh_pool opts_down) = 2"
    by (simp add: outage_schedule_def opts_down_def Get_ok_def eval_defs word_le_nat_alt)
  have f: "failed_dial_gets outage_schedule (fresh_pool opts_down) = 3"
    by (simp add: outage_schedule_def opts_down_def Get_missed_failed_def eval_defs
          word_le_nat_alt)
  from served_count [OF r(1)] r s f show ?thesis by blast
qed

text \<open>
  C4 as stated fails: a \<open>Get\<close> whose dial fails returns an error and has counted a miss.
\<close>

theorem served_count_counterexample:
  "\<exists>p. Get None TimerFires (fresh_pool opts_down) = Returns (0, Some (DialError 0)) p \<and>
     run [Get_op None TimerFires] (fresh_pool opts_down) = Returns () p \<and>
     successful_gets [Get_op None TimerFires] (fresh_pool opts_down) = 0 \<and>
     tasks p = [] \<and> Hits (stats p) + Misses (stats p) = 1"
  by (simp add: opts_down_def Get_ok_def eval_defs word_le_nat_alt)

section \<open>Closes of a connection\<close>

text \<open>
  C3 (as amended). For a pool made by \<open>NewConnPool\<close> with \<open>0 < PoolSize < 2^32\<close>, along
  every schedule without \<open>Filter\<close> whose callers give back only connections they hold,
  \<open>Close\<close> is called at most once on each connection; and a connection that has been
  created and is no longer in \<open>conns\<close> (or whose pool is closed) has been closed exactly
  once, as soon as no asynchronous close of it is waiting to run.
\<close>

theorem closed_at_most_once:
  assumes "0 < PoolSize opt" "PoolSize opt < 2 ^ 32" "NewConnPool opt = Returns u p0"
    "polite ops p0 {}" "run ops p0 = Returns v p"
  shows "closeCalls p c \<le> 1 \<and>
         (0 < c \<and> c < nextConn p \<and> (\<forall>cs. conns p = Some cs \<longrightarrow> c \<notin> set cs) \<and>
          pending p c = 0 \<longrightarrow> closeCalls p c = 1)"
proof -
  have "safe {} p0" using assms(1-3) by (rule NewConnPool_safe)
  from run_safe [OF this assms(4,5)] obtain H where "safe H p" ..
  from safe_closes [OF this] show ?thesis by blast
qed


theorem closed_at_most_once_witness:
  "\<exists>p0 p. 0 < PoolSize opts_cap \<and> PoolSize opts_cap < 2 ^ 32 \<and>
     NewConnPool opts_cap = Returns () p0 \<and> polite overflow_schedule p0 {} \<and>
     run overflow_schedule p0 = Returns () p \<and>
     nextConn p = 3 \<and> conns p = None \<and> pending p 1 = 0 \<and> pending p 2 = 0 \<and>
     closeCalls p 1 = 1 \<and> closeCalls p 2 = 1 \<and> closeCalls p 3 \<le> 1"
proof -
  have a: "0 < PoolSize opts_cap" "PoolSize opts_cap < 2 ^ 32"
    by (simp_all add: opts_cap_def)
  have "\<exists>p0. NewConnPool opts_cap = Returns () p0 \<and> polite overflow_schedule p0 {} \<and>
     (\<exists>p. run overflow_schedule p0 = Returns () p \<and> nextConn p = 3 \<and> conns p = None \<and>
        pending p 1 = 0 \<and> pending p 2 = 0)"
    by (simp add: overflow_schedule_def opts_cap_def held_after_def pending_def eval_defs)
  then obtain p0 p where n: "NewConnPool opts_cap = Returns () p0"
    and b: "polite overflow_schedule p0 {}"
    and r: "run overflow_schedule p0 = Returns () p"
    and c: "nextConn p = 3" "conns p = None" "pending p 1 = 0" "pending p 2 = 0"
    by blast
  note t = closed_at_most_once [OF a n b r]
  from t [of 1] t [of 2] t [of 3] c
  have "closeCalls p 1 = 1" "closeCalls p 2 = 1" "closeCalls p 3 \<le> 1" by simp_all
  with a n b r c show ?thesis by blast
qed

text \<open>
  C3 as stated fails. \<open>Filter\<close> closes a connection and leaves it in \<open>conns\<close>, so \<open>Close\<close>
  closes it again; and a caller that removes a connection twice has it closed twice.
\<close>

theorem closed_at_most_once_counterexample:
  "\<exists>p0 p q. NewConnPool opts_two = Returns () p0 \<and>
     run [Get_op None TimerFires, Filter_op (\<lambda>_. True), Close_op] p0 = Returns () p \<and>
     closeCalls p 1 = 2 \<and>
     run [Get_op None TimerFires, Get_op None TimerFires, Remove_op 1 None, Remove_op 1 None] p0 =
       Returns () q \<and>
     closeCalls q 1 = 2"
  by (simp add: opts_two_def eval_defs)

end
